theory Spec2Isabelle
  imports Main "HOL-Library.Word" "HOL-Library.Multiset" "HOL-Library.Sublist"
begin

section \<open>CheatNote: the record store, its snapshot file and the tag filter\<close>

text \<open>
  A shallow embedding of \<^verbatim>\<open>notes_io.c\<close>, \<^verbatim>\<open>db.c\<close>, \<^verbatim>\<open>utils.c\<close> and the tag matcher of
  \<^verbatim>\<open>search.c\<close>, for an LP64 platform: \<^verbatim>\<open>unsigned int\<close> is a 32-bit word, \<^verbatim>\<open>size_t\<close> a
  64-bit word and \<^verbatim>\<open>time_t\<close> a 64-bit word read as two's complement.

  A C string is modelled by the list of its bytes before the terminating NUL; a pointer
  that may be \<^verbatim>\<open>NULL\<close> is an \<open>option\<close>. A fixed \<^verbatim>\<open>char[N]\<close> field of a note is modelled by
  the C string it holds (bytes behind the terminator are not represented).
  The global \<^verbatim>\<open>db\<close> is passed in and returned. \<^verbatim>\<open>cn_error_exit\<close> ends the process: a
  function that can reach it returns \<open>Inl (Error_exit msg)\<close>. The result of \<^verbatim>\<open>time(NULL)\<close>
  and whether an allocation request succeeds are inputs of the functions that ask.
\<close>

subsection \<open>Constants of \<^verbatim>\<open>cheatnote.h\<close>\<close>

type_synonym u32 = "32 word"
type_synonym size_t = "64 word"
type_synonym time_t = "64 word"

definition MAX_TITLE_LEN :: nat where "MAX_TITLE_LEN = 256"
definition MAX_CONTENT_LEN :: nat where "MAX_CONTENT_LEN = 8192"
definition MAX_TAGS_LEN :: nat where "MAX_TAGS_LEN = 512"
definition INITIAL_CAPACITY :: size_t where "INITIAL_CAPACITY = 64"
definition GROWTH_FACTOR :: size_t where "GROWTH_FACTOR = 2"
definition MAX_NOTES :: size_t where "MAX_NOTES = 1000000"

definition SIZE_MAX :: size_t where "SIZE_MAX = 0xFFFFFFFFFFFFFFFF"

text \<open>
  \<^verbatim>\<open>sizeof(cn_note)\<close> on LP64: 4 bytes of id, 256 + 8192 + 512 bytes of text, 4 bytes of
  padding and two 8-byte timestamps.
\<close>

definition sizeof_cn_note :: size_t where "sizeof_cn_note = 8984"

subsection \<open>Data structures\<close>

record cn_note =
  note_id :: u32
  title :: string
  content :: string
  tags :: string
  created_at :: time_t
  modified_at :: time_t

text \<open>
  \<open>db_notes\<close> is \<open>None\<close> for the \<^verbatim>\<open>NULL\<close> pointer, else the allocated array, one element
  per slot.
\<close>

record cn_note_db =
  db_notes :: "cn_note list option"
  db_count :: size_t
  db_capacity :: size_t
  db_next_id :: u32

datatype exit = Error_exit string

text \<open>A slot whose bytes are all zero (after \<^verbatim>\<open>calloc\<close> or \<^verbatim>\<open>memset\<close>).\<close>

definition zero_note :: cn_note where
  "zero_note = \<lparr>note_id = 0, title = [], content = [], tags = [],
                 created_at = 0, modified_at = 0\<rparr>"

definition notes_of :: "cn_note_db \<Rightarrow> cn_note list" where
  "notes_of db = (case db_notes db of None \<Rightarrow> [] | Some arr \<Rightarrow> arr)"

text \<open>The live notes: slots \<open>0 .. count - 1\<close>.\<close>

definition live :: "cn_note_db \<Rightarrow> cn_note list" where
  "live db = take (unat (db_count db)) (notes_of db)"

text \<open>
  The representation invariant under which the C code indexes inside its array: the array
  is allocated with \<open>capacity\<close> slots and \<open>count \<le> capacity\<close>.
\<close>

definition db_wf :: "cn_note_db \<Rightarrow> bool" where
  "db_wf db = (case db_notes db of None \<Rightarrow> False
               | Some arr \<Rightarrow> length arr = unat (db_capacity db) \<and> db_count db \<le> db_capacity db)"

subsection \<open>\<^verbatim>\<open>utils.c\<close>\<close>

text \<open>\<^verbatim>\<open>isspace\<close> and \<^verbatim>\<open>tolower\<close> of the C locale, on bytes.\<close>

definition isspace :: "char \<Rightarrow> bool" where
  "isspace c = (let n = (of_char c :: nat) in n = 32 \<or> (9 \<le> n \<and> n \<le> 13))"

definition tolower :: "char \<Rightarrow> char" where
  "tolower c = (let n = (of_char c :: nat) in if 65 \<le> n \<and> n \<le> 90 then char_of (n + 32) else c)"

text \<open>
  \<^verbatim>\<open>cn_safe_strncpy(dest, src, dest_size)\<close>: copies at most \<open>dest_size - 1\<close> bytes and
  terminates; a zero \<open>dest_size\<close> leaves \<open>dest\<close> alone.
\<close>

definition cn_safe_strncpy :: "string \<Rightarrow> string \<Rightarrow> nat \<Rightarrow> string" where
  "cn_safe_strncpy dest src dest_size = (if dest_size = 0 then dest else take (dest_size - 1) src)"

text \<open>
  \<^verbatim>\<open>cn_strip_whitespace\<close>: the first loop cuts the trailing white space, the second counts
  the leading white space, which \<^verbatim>\<open>memmove\<close> then drops.
\<close>

definition cn_strip_whitespace :: "string \<Rightarrow> string" where
  "cn_strip_whitespace str =
     (if str = [] then []
      else let trimmed = rev (dropWhile isspace (rev str));
               start = length (takeWhile isspace trimmed)
           in if 0 < start then drop start trimmed else trimmed)"

subsection \<open>\<^verbatim>\<open>db.c\<close>: initialisation\<close>

definition cn_db_init :: "bool \<Rightarrow> cn_note_db \<Rightarrow> exit + cn_note_db" where
  "cn_db_init calloc_ok db =
     (if db_notes db \<noteq> None then Inr db
      else if \<not> calloc_ok then Inl (Error_exit ''Failed to allocate memory for database'')
      else Inr \<lparr>db_notes = Some (replicate (unat INITIAL_CAPACITY) zero_note),
                db_count = 0, db_capacity = INITIAL_CAPACITY, db_next_id = 1\<rparr>)"

subsection \<open>\<^verbatim>\<open>notes_io.c\<close>\<close>

text \<open>
  \<^verbatim>\<open>realloc\<close> to \<open>new_bytes\<close> followed by the \<^verbatim>\<open>memset\<close> of the part behind \<open>old_bytes\<close>:
  the block holds \<open>new_bytes div sizeof(cn_note)\<close> slots, the old slots keep their values
  and the slots behind them are zero.
\<close>

definition realloc_zero :: "cn_note list \<Rightarrow> size_t \<Rightarrow> size_t \<Rightarrow> cn_note list" where
  "realloc_zero arr old_bytes new_bytes =
     (let n_new = unat new_bytes div unat sizeof_cn_note;
          n_old = unat old_bytes div unat sizeof_cn_note
      in take n_new arr @ (if old_bytes < new_bytes then replicate (n_new - n_old) zero_note else []))"

definition ensure_capacity_for_one :: "bool \<Rightarrow> cn_note_db \<Rightarrow> exit + (bool \<times> cn_note_db)" where
  "ensure_capacity_for_one alloc_ok db =
     (case db_notes db of
        None \<Rightarrow> (case cn_db_init alloc_ok db of Inl e \<Rightarrow> Inl e | Inr db' \<Rightarrow> Inr (True, db'))
      | Some arr \<Rightarrow>
          if db_count db < db_capacity db then Inr (True, db)
          else if SIZE_MAX div GROWTH_FACTOR div sizeof_cn_note < db_capacity db then Inr (False, db)
          else
            let doubled = db_capacity db * GROWTH_FACTOR;
                new_capacity = (if MAX_NOTES < doubled then MAX_NOTES else doubled)
            in if new_capacity \<le> db_capacity db then Inr (False, db)
               else if \<not> alloc_ok then Inr (False, db)
               else
                 let old_bytes = db_capacity db * sizeof_cn_note;
                     new_bytes = new_capacity * sizeof_cn_note
                 in Inr (True, db\<lparr>db_notes := Some (realloc_zero arr old_bytes new_bytes),
                                  db_capacity := new_capacity\<rparr>))"

definition cn_note_add ::
  "bool \<Rightarrow> time_t \<Rightarrow> string option \<Rightarrow> string option \<Rightarrow> string option \<Rightarrow> cn_note_db
     \<Rightarrow> exit + (u32 \<times> cn_note_db)" where
  "cn_note_add alloc_ok now title_arg content_arg tags_arg db =
     (case title_arg of None \<Rightarrow> Inr (0, db) | Some t \<Rightarrow>
      case content_arg of None \<Rightarrow> Inr (0, db) | Some c \<Rightarrow>
        if t = [] \<or> c = [] then Inr (0, db)
        else if MAX_TITLE_LEN \<le> length t \<or> MAX_CONTENT_LEN \<le> length c then Inr (0, db)
        else if (case tags_arg of None \<Rightarrow> False | Some g \<Rightarrow> MAX_TAGS_LEN \<le> length g)
          then Inr (0, db)
        else if MAX_NOTES \<le> db_count db
          then Inl (Error_exit ''Maximum number of notes reached'')
        else
          case ensure_capacity_for_one alloc_ok db of
            Inl e \<Rightarrow> Inl e
          | Inr (ok, db1) \<Rightarrow>
              if \<not> ok then Inl (Error_exit ''Failed to resize database for new note'')
              else
                let k = unat (db_count db1);
                    slot = notes_of db1 ! k;
                    new_id = db_next_id db1;
                    incremented = db_next_id db1 + 1;
                    next_id' = (if incremented = 0 then 1 else incremented);
                    tags_copied = (case tags_arg of
                                     None \<Rightarrow> []
                                   | Some g \<Rightarrow> if g \<noteq> [] then cn_safe_strncpy (tags slot) g MAX_TAGS_LEN
                                              else []);
                    note = \<lparr>note_id = new_id,
                            title = cn_strip_whitespace (cn_safe_strncpy (title slot) t MAX_TITLE_LEN),
                            content = cn_strip_whitespace (cn_safe_strncpy (content slot) c MAX_CONTENT_LEN),
                            tags = cn_strip_whitespace tags_copied,
                            created_at = now, modified_at = now\<rparr>
                in Inr (new_id, db1\<lparr>db_notes := Some ((notes_of db1)[k := note]),
                                    db_count := db_count db1 + 1,
                                    db_next_id := next_id'\<rparr>))"

text \<open>
  The loop \<^verbatim>\<open>for (i = 0; i < db.count; ++i) if (db.notes[i].id == id)\<close> of edit and delete:
  the first live slot that carries the id.
\<close>

primrec find_note :: "u32 \<Rightarrow> cn_note list \<Rightarrow> nat option" where
  "find_note nid [] = None"
| "find_note nid (n # ns) = (if note_id n = nid then Some 0 else map_option Suc (find_note nid ns))"

text \<open>The test \<^verbatim>\<open>p && p[0] != '\0'\<close> on an argument.\<close>

definition given :: "string option \<Rightarrow> string option" where
  "given p = (case p of None \<Rightarrow> None | Some s \<Rightarrow> if s = [] then None else Some s)"

text \<open>
  The three blocks of the body of \<^verbatim>\<open>cn_note_edit\<close>; each gives \<open>None\<close> where the C code
  returns 0 from inside the block, and the note as the block leaves it otherwise.
\<close>

definition edit_title :: "string option \<Rightarrow> cn_note \<Rightarrow> cn_note option" where
  "edit_title title_arg note =
     (case given title_arg of None \<Rightarrow> Some note
      | Some t \<Rightarrow> if MAX_TITLE_LEN \<le> length t then None
                  else Some (note\<lparr>title := cn_strip_whitespace
                                               (cn_safe_strncpy (title note) t MAX_TITLE_LEN)\<rparr>))"

definition edit_content :: "string option \<Rightarrow> cn_note \<Rightarrow> cn_note option" where
  "edit_content content_arg note =
     (case given content_arg of None \<Rightarrow> Some note
      | Some c \<Rightarrow> if MAX_CONTENT_LEN \<le> length c then None
                  else Some (note\<lparr>content := cn_strip_whitespace
                                                 (cn_safe_strncpy (content note) c MAX_CONTENT_LEN)\<rparr>))"

definition edit_tags :: "string option \<Rightarrow> cn_note \<Rightarrow> cn_note option" where
  "edit_tags tags_arg note =
     (case tags_arg of None \<Rightarrow> Some note
      | Some g \<Rightarrow> if MAX_TAGS_LEN \<le> length g then None
                  else Some (note\<lparr>tags := cn_strip_whitespace
                                              (cn_safe_strncpy (tags note) g MAX_TAGS_LEN)\<rparr>))"

text \<open>Writing through \<^verbatim>\<open>&db.notes[i]\<close>.\<close>

definition store_note :: "cn_note_db \<Rightarrow> nat \<Rightarrow> cn_note \<Rightarrow> cn_note_db" where
  "store_note db i note = db\<lparr>db_notes := Some ((notes_of db)[i := note])\<rparr>"

definition cn_note_edit ::
  "time_t \<Rightarrow> u32 \<Rightarrow> string option \<Rightarrow> string option \<Rightarrow> string option \<Rightarrow> cn_note_db
     \<Rightarrow> bool \<times> cn_note_db" where
  "cn_note_edit now nid title_arg content_arg tags_arg db =
     (if nid = 0 then (False, db)
      else case find_note nid (live db) of
        None \<Rightarrow> (False, db)
      | Some i \<Rightarrow>
          (case edit_title title_arg (notes_of db ! i) of
             None \<Rightarrow> (False, db)
           | Some n1 \<Rightarrow>
          (case edit_content content_arg n1 of
             None \<Rightarrow> (False, store_note db i n1)
           | Some n2 \<Rightarrow>
          (case edit_tags tags_arg n2 of
             None \<Rightarrow> (False, store_note db i n2)
           | Some n3 \<Rightarrow> (True, store_note db i (n3\<lparr>modified_at := now\<rparr>))))))"

definition cn_note_delete :: "u32 \<Rightarrow> cn_note_db \<Rightarrow> bool \<times> cn_note_db" where
  "cn_note_delete nid db =
     (if nid = 0 then (False, db)
      else case find_note nid (live db) of
        None \<Rightarrow> (False, db)
      | Some i \<Rightarrow>
          let last_slot = unat (db_count db - 1);
              arr = notes_of db;
              moved = (if i < last_slot then arr[i := arr ! last_slot] else arr);
              cleared = moved[last_slot := zero_note]
          in (True, db\<lparr>db_notes := Some cleared, db_count := db_count db - 1\<rparr>))"

subsection \<open>\<^verbatim>\<open>db.c\<close>: the snapshot file\<close>

text \<open>
  The content of a snapshot file, as far as \<^verbatim>\<open>cn_db_load\<close> reads it: a file that ends
  inside the \<^verbatim>\<open>size_t\<close> count, a file that holds the count and ends inside the 32-bit
  next id, or a file with both header fields followed by the complete note records it
  holds (a trailing incomplete record is never delivered by \<^verbatim>\<open>fread\<close>). A record of the
  file is a note whose text fields are the bytes of the buffer before its first NUL, up to
  the whole buffer when the file has none.
\<close>

datatype snapshot =
    Truncated_in_count
  | Truncated_in_next_id size_t
  | Snapshot size_t u32 "cn_note list"

text \<open>Where the steps of \<^verbatim>\<open>cn_db_save\<close> can fail; each failure ends in \<^verbatim>\<open>cn_error_exit\<close>.\<close>

datatype save_fault =
    No_path | Mkdir_failed | Tmp_path_too_long | Open_failed
  | Header_write_failed | Records_write_failed | Close_failed | Rename_failed

text \<open>
  \<^verbatim>\<open>cn_db_save\<close>: the header, then the first \<open>count\<close> slots of the array when \<open>count > 0\<close>.
  The result is the content of the file at the database path after the rename.
\<close>

definition cn_db_save :: "save_fault option \<Rightarrow> cn_note_db \<Rightarrow> exit + snapshot" where
  "cn_db_save fault db =
     (let written = Snapshot (db_count db) (db_next_id db) (if 0 < db_count db then live db else [])
      in case fault of
           None \<Rightarrow> Inr written
         | Some No_path \<Rightarrow> Inl (Error_exit ''No database path available'')
         | Some Mkdir_failed \<Rightarrow> Inl (Error_exit ''Failed to create database directory'')
         | Some Tmp_path_too_long \<Rightarrow> Inl (Error_exit ''Temporary path too long'')
         | Some Open_failed \<Rightarrow> Inl (Error_exit ''Failed to open temporary database file for writing'')
         | Some Header_write_failed \<Rightarrow> Inl (Error_exit ''Failed to write database header'')
         | Some Records_write_failed \<Rightarrow>
             if 0 < db_count db then Inl (Error_exit ''Failed to write database records'')
             else Inr written
         | Some Close_failed \<Rightarrow> Inl (Error_exit ''Failed to close temporary database file'')
         | Some Rename_failed \<Rightarrow> Inl (Error_exit ''Failed to update database file''))"

text \<open>The sanitisation of one loaded record: a NUL in the last byte of each buffer.\<close>

definition sanitize_note :: "cn_note \<Rightarrow> cn_note" where
  "sanitize_note n = n\<lparr>title := take (MAX_TITLE_LEN - 1) (title n),
                        content := take (MAX_CONTENT_LEN - 1) (content n),
                        tags := take (MAX_TAGS_LEN - 1) (tags n)\<rparr>"

text \<open>
  \<^verbatim>\<open>cn_db_load\<close>. The file is \<open>None\<close> when there is no path or \<^verbatim>\<open>fopen\<close> fails.
  \<open>init_ok\<close> is the outcome of the \<^verbatim>\<open>calloc\<close> of \<^verbatim>\<open>cn_db_init\<close>, \<open>calloc_ok\<close> that of the
  \<^verbatim>\<open>calloc\<close> of the array the records are read into.
\<close>

definition cn_db_load :: "bool \<Rightarrow> bool \<Rightarrow> snapshot option \<Rightarrow> cn_note_db \<Rightarrow> exit + cn_note_db" where
  "cn_db_load init_ok calloc_ok file db =
     (case file of
        None \<Rightarrow> cn_db_init init_ok db
      | Some Truncated_in_count \<Rightarrow> cn_db_init init_ok db
      | Some (Truncated_in_next_id file_count) \<Rightarrow> cn_db_init init_ok db
      | Some (Snapshot file_count file_next_id records) \<Rightarrow>
          if MAX_NOTES < file_count \<or> file_next_id = 0 then cn_db_init init_ok db
          else if file_count = 0 then
            (case cn_db_init init_ok db of
               Inl e \<Rightarrow> Inl e
             | Inr db' \<Rightarrow> Inr (db'\<lparr>db_next_id := file_next_id\<rparr>))
          else
            let cap0 = (if file_count < INITIAL_CAPACITY then INITIAL_CAPACITY else file_count);
                cap = (if cap0 < file_count * GROWTH_FACTOR \<and> file_count * GROWTH_FACTOR \<le> MAX_NOTES
                       then file_count * GROWTH_FACTOR else cap0)
            in if \<not> calloc_ok then Inl (Error_exit ''Failed to allocate memory for database'')
               else
                 let actually_read = min (unat file_count) (length records)
                 in if actually_read \<noteq> unat file_count then cn_db_init init_ok db
                    else Inr \<lparr>db_notes = Some (map sanitize_note (take actually_read records)
                                                 @ replicate (unat cap - actually_read) zero_note),
                              db_count = file_count, db_capacity = cap,
                              db_next_id = file_next_id\<rparr>)"

subsection \<open>Sequences of calls\<close>

text \<open>
  A call of the store's interface together with what the environment answers during the
  call: whether the allocation succeeds and what \<^verbatim>\<open>time(NULL)\<close> returns.
\<close>

datatype op =
    Add bool time_t "string option" "string option" "string option"
  | Edit time_t u32 "string option" "string option" "string option"
  | Delete u32

fun apply_op :: "op \<Rightarrow> cn_note_db \<Rightarrow> exit + cn_note_db" where
  "apply_op (Add alloc_ok now t c g) db =
     (case cn_note_add alloc_ok now t c g db of Inl e \<Rightarrow> Inl e | Inr (new_id, db') \<Rightarrow> Inr db')"
| "apply_op (Edit now nid t c g) db = Inr (snd (cn_note_edit now nid t c g db))"
| "apply_op (Delete nid) db = Inr (snd (cn_note_delete nid db))"

fun run :: "op list \<Rightarrow> cn_note_db \<Rightarrow> exit + cn_note_db" where
  "run [] db = Inr db"
| "run (x # xs) db = (case apply_op x db of Inl e \<Rightarrow> Inl e | Inr db' \<Rightarrow> run xs db')"

text \<open>
  The id counter wraps in an add exactly when the add hands out the id \<open>UINT_MAX\<close>: the
  increment then gives 0 and the guard resets the counter to 1.
\<close>

fun op_wraps :: "op \<Rightarrow> cn_note_db \<Rightarrow> bool" where
  "op_wraps (Add alloc_ok now t c g) db =
     (case cn_note_add alloc_ok now t c g db of Inl e \<Rightarrow> False | Inr (new_id, db') \<Rightarrow> new_id = - 1)"
| "op_wraps (Edit now nid t c g) db = False"
| "op_wraps (Delete nid) db = False"

fun wraps :: "op list \<Rightarrow> cn_note_db \<Rightarrow> bool" where
  "wraps [] db = False"
| "wraps (x # xs) db =
     (op_wraps x db \<or> (case apply_op x db of Inl e \<Rightarrow> False | Inr db' \<Rightarrow> wraps xs db'))"

subsection \<open>\<^verbatim>\<open>search.c\<close>: the tag filter\<close>

text \<open>\<^verbatim>\<open>strstr(haystack, needle) != NULL\<close>.\<close>

primrec strstr :: "string \<Rightarrow> string \<Rightarrow> bool" where
  "strstr [] needle = (needle = [])"
| "strstr (h # hs) needle = (prefix needle (h # hs) \<or> strstr hs needle)"

text \<open>
  One call of \<^verbatim>\<open>strtok_r\<close> with the delimiter \<^verbatim>\<open>","\<close> on the text that is left: it skips
  the leading commas, gives \<open>None\<close> at the end of the text, and otherwise the token up to
  the next comma with the text behind that comma.
\<close>

definition strtok_r :: "string \<Rightarrow> (string \<times> string) option" where
  "strtok_r s =
     (let start = dropWhile (\<lambda>c. c = CHR '','') s
      in if start = [] then None
         else Some (takeWhile (\<lambda>c. c \<noteq> CHR '','') start,
                    drop 1 (dropWhile (\<lambda>c. c \<noteq> CHR '','') start)))"

text \<open>The \<^verbatim>\<open>while (token)\<close> loop; \<open>True\<close> is \<^verbatim>\<open>match == 1\<close> at its end.\<close>

function match_tokens :: "string \<Rightarrow> string \<Rightarrow> bool" where
  "match_tokens note_copy s =
     (case strtok_r s of
        None \<Rightarrow> True
      | Some (token, rest) \<Rightarrow>
          if cn_strip_whitespace token \<noteq> [] \<and> \<not> strstr note_copy (cn_strip_whitespace token)
          then False
          else match_tokens note_copy rest)"
  by pat_completeness auto
termination
proof (relation "measure (\<lambda>(note_copy, s). length s)")
  show "wf (measure (\<lambda>(note_copy, s). length s))"
    by simp
next
  fix note_copy s :: string and x2 :: "string \<times> string" and token rest :: string
  assume a: "strtok_r s = Some x2" and x2: "(token, rest) = x2"
  define start where "start = dropWhile (\<lambda>c. c = CHR '','') s"
  from a x2 have ne: "start \<noteq> []"
    and r: "rest = drop 1 (dropWhile (\<lambda>c. c \<noteq> CHR '','') start)"
    by (auto simp: strtok_r_def start_def Let_def split: if_splits)
  have "length rest \<le> length start - 1"
    unfolding r by (simp add: length_dropWhile_le diff_le_mono)
  moreover have "length start \<le> length s"
    unfolding start_def by (rule length_dropWhile_le)
  moreover have "0 < length start"
    using ne by simp
  ultimately have "length rest < length s"
    by linarith
  then show "((note_copy, rest), note_copy, s) \<in> measure (\<lambda>(note_copy, s). length s)"
    by simp
qed

declare match_tokens.simps [simp del]

definition cn_note_match_tags :: "bool \<Rightarrow> string option \<Rightarrow> string option \<Rightarrow> bool" where
  "cn_note_match_tags malloc_ok note_tags search_tags =
     (case given search_tags of
        None \<Rightarrow> True
      | Some q \<Rightarrow>
          (case given note_tags of
             None \<Rightarrow> False
           | Some n \<Rightarrow>
               if MAX_TAGS_LEN \<le> length n \<or> MAX_TAGS_LEN \<le> length q then False
               else if \<not> malloc_ok then False
               else match_tokens (map tolower n) (map tolower q)))"

text \<open>
  The tag filter as the specification words it: the query is lower-cased and split at its
  commas, each sub-token is trimmed, the empty ones are ignored, and every other one must
  occur in the lower-cased tags of the note.
\<close>

fun split_commas :: "string \<Rightarrow> string list" where
  "split_commas [] = [[]]"
| "split_commas (c # cs) =
     (if c = CHR '','' then [] # split_commas cs
      else (case split_commas cs of [] \<Rightarrow> [[c]] | t # ts \<Rightarrow> (c # t) # ts))"

definition spec_trim :: "string \<Rightarrow> string" where
  "spec_trim s = dropWhile isspace (rev (dropWhile isspace (rev s)))"

definition spec_required_tokens :: "string \<Rightarrow> string list" where
  "spec_required_tokens query =
     filter (\<lambda>t. t \<noteq> []) (map spec_trim (split_commas (map tolower query)))"

definition spec_match_tags :: "string option \<Rightarrow> string option \<Rightarrow> bool" where
  "spec_match_tags note_tags search_tags =
     (case given search_tags of
        None \<Rightarrow> True
      | Some q \<Rightarrow> (\<forall>t \<in> set (spec_required_tokens q).
                     sublist t (map tolower (case note_tags of None \<Rightarrow> [] | Some n \<Rightarrow> n))))"

text \<open>The non-empty trimmed sub-tokens of a text, as a set.\<close>

definition required :: "string \<Rightarrow> string set" where
  "required s = set (filter (\<lambda>t. t \<noteq> []) (map spec_trim (split_commas s)))"

subsection \<open>Malformed snapshot files\<close>

text \<open>
  A malformed snapshot as the specification words it: the header cannot be read, the count
  exceeds \<open>MAX_NOTES\<close>, the next id is zero, or fewer than \<open>count\<close> records can be read.
\<close>

fun spec_malformed :: "snapshot \<Rightarrow> bool" where
  "spec_malformed Truncated_in_count = True"
| "spec_malformed (Truncated_in_next_id file_count) = True"
| "spec_malformed (Snapshot file_count file_next_id records) =
     (MAX_NOTES < file_count \<or> file_next_id = 0 \<or> length records < unat file_count)"

text \<open>
  The header passes the sanity checks of \<^verbatim>\<open>cn_db_load\<close> and announces at least one record:
  the loader then allocates the array for the announced records before it reads them.
\<close>

fun header_accepted :: "snapshot \<Rightarrow> bool" where
  "header_accepted Truncated_in_count = False"
| "header_accepted (Truncated_in_next_id file_count) = False"
| "header_accepted (Snapshot file_count file_next_id records) =
     (\<not> MAX_NOTES < file_count \<and> file_next_id \<noteq> 0 \<and> file_count \<noteq> 0)"

text \<open>The store that \<^verbatim>\<open>cn_db_init\<close> sets up.\<close>

definition fresh_store :: cn_note_db where
  "fresh_store = \<lparr>db_notes = Some (replicate (unat INITIAL_CAPACITY) zero_note),
                  db_count = 0, db_capacity = INITIAL_CAPACITY, db_next_id = 1\<rparr>"

subsection \<open>Growth, in unbounded arithmetic\<close>

text \<open>
  The new capacity as the specification words it: the capacity times 2, clamped to
  \<open>MAX_NOTES\<close>; computed on natural numbers, where nothing wraps.
\<close>

definition spec_new_capacity :: "nat \<Rightarrow> nat" where
  "spec_new_capacity cap = min (cap * 2) 1000000"

subsection \<open>Invariants of the store\<close>

text \<open>The three text fields of a note fit their buffers, terminator included.\<close>

definition note_bounded :: "cn_note \<Rightarrow> bool" where
  "note_bounded n = (length (title n) < MAX_TITLE_LEN \<and> length (content n) < MAX_CONTENT_LEN
                     \<and> length (tags n) < MAX_TAGS_LEN)"

text \<open>What a snapshot needs to be read back: a plausible header and bounded text.\<close>

definition store_inv :: "cn_note_db \<Rightarrow> bool" where
  "store_inv db = (db_wf db \<and> db_count db \<le> MAX_NOTES \<and> db_next_id db \<noteq> 0
                   \<and> list_all note_bounded (live db))"

text \<open>Live ids are pairwise distinct and below the id counter.\<close>

definition ids_inv :: "cn_note_db \<Rightarrow> bool" where
  "ids_inv db = (db_wf db \<and> distinct (map note_id (live db))
                 \<and> list_all (\<lambda>n. unat (note_id n) < unat (db_next_id db)) (live db))"

subsection \<open>Example stores\<close>

definition ex_note :: "u32 \<Rightarrow> string \<Rightarrow> cn_note" where
  "ex_note i t = \<lparr>note_id = i, title = t, content = ''git status -s'', tags = ''git,cli'',
                   created_at = 10, modified_at = 10\<rparr>"

definition ex_db :: cn_note_db where
  "ex_db = \<lparr>db_notes = Some [ex_note 1 ''one'', ex_note 2 ''two'', zero_note, zero_note],
            db_count = 2, db_capacity = 4, db_next_id = 3\<rparr>"

text \<open>A store in which the id 1 was handed out again after the counter had wrapped.\<close>

definition ex_dup_db :: cn_note_db where
  "ex_dup_db = \<lparr>db_notes = Some [ex_note 1 ''old'', ex_note 1 ''new'', zero_note, zero_note],
                db_count = 2, db_capacity = 4, db_next_id = 2\<rparr>"

definition ex_unallocated :: cn_note_db where
  "ex_unallocated = \<lparr>db_notes = None, db_count = 0, db_capacity = 0, db_next_id = 0\<rparr>"

definition ex_full_db :: cn_note_db where
  "ex_full_db = \<lparr>db_notes = Some [ex_note 1 ''one'', ex_note 2 ''two''],
                 db_count = 2, db_capacity = 2, db_next_id = 3\<rparr>"

definition ex_empty_db :: cn_note_db where
  "ex_empty_db = \<lparr>db_notes = Some [zero_note, zero_note], db_count = 0, db_capacity = 2,
                  db_next_id = 1\<rparr>"

definition ex_ops :: "op list" where
  "ex_ops = [Add True 5 (Some ''git'') (Some ''status'') (Some ''vcs''),
             Add True 6 (Some ''ls'') (Some ''list'') None,
             Delete 1]"

definition ex_git_note :: cn_note where
  "ex_git_note = \<lparr>note_id = 1, title = ''git'', content = ''status'', tags = ''vcs'',
                   created_at = 5, modified_at = 5\<rparr>"

definition ex_ls_note :: cn_note where
  "ex_ls_note = \<lparr>note_id = 2, title = ''ls'', content = ''list'', tags = [],
                  created_at = 6, modified_at = 6\<rparr>"

text \<open>The store \<open>ex_empty_db\<close> after the calls \<open>ex_ops\<close>.\<close>

definition ex_after_ops :: cn_note_db where
  "ex_after_ops = \<lparr>db_notes = Some [ex_ls_note, zero_note], db_count = 1, db_capacity = 2,
                   db_next_id = 3\<rparr>"

text \<open>The store of \<^verbatim>\<open>cn_db_init\<close> after one add.\<close>

definition ex_one_added :: cn_note_db where
  "ex_one_added = \<lparr>db_notes = Some ((replicate 64 zero_note)[0 := ex_git_note]), db_count = 1,
                   db_capacity = 64, db_next_id = 2\<rparr>"

section \<open>Properties\<close>

subsection \<open>Finding a note\<close>

lemma find_note_Some:
  "find_note nid xs = Some i \<Longrightarrow>
     i < length xs \<and> note_id (xs ! i) = nid \<and> (\<forall>j<i. note_id (xs ! j) \<noteq> nid)"
proof (induction xs arbitrary: i)
  case Nil
  then show ?case by simp
next
  case (Cons n ns)
  show ?case
  proof (cases "note_id n = nid")
    case True
    with Cons.prems show ?thesis by simp
  next
    case False
    with Cons.prems obtain k where k: "find_note nid ns = Some k" "i = Suc k"
      by auto
    from Cons.IH[OF k(1)] False k(2) show ?thesis
      by (auto simp: less_Suc_eq_0_disj)
  qed
qed

lemma find_note_None: "find_note nid xs = None \<longleftrightarrow> nid \<notin> note_id ` set xs"
  by (induction xs) auto

lemma find_note_present:
  assumes "nid \<in> note_id ` set xs"
  obtains i where "find_note nid xs = Some i"
  using assms find_note_None[of nid xs] by (cases "find_note nid xs") auto

lemma live_store_note: "live (store_note db i n) = (live db)[i := n]"
  by (simp add: live_def store_note_def notes_of_def take_update_swap)

lemma notes_of_nth_live: "i < length (live db) \<Longrightarrow> notes_of db ! i = live db ! i"
  by (simp add: live_def)

subsection \<open>Editing\<close>

text \<open>
  C10. For a nonzero id that a live note carries, \<^verbatim>\<open>cn_note_edit\<close> with a title that is
  NULL or empty, a content that is NULL or empty and NULL tags returns success; the first
  live note with that id gets \<open>modified_at = now\<close> and keeps its id, title, content, tags
  and \<open>created_at\<close>; every other slot, the count, the capacity and the id counter stay as
  they are.
\<close>

theorem edit_without_fields:
  assumes "nid \<noteq> 0" and "nid \<in> note_id ` set (live db)"
    and "title_arg = None \<or> title_arg = Some []"
    and "content_arg = None \<or> content_arg = Some []"
  shows "\<exists>i db'. cn_note_edit now nid title_arg content_arg None db = (True, db')
            \<and> find_note nid (live db) = Some i \<and> i < length (live db)
            \<and> note_id (live db ! i) = nid
            \<and> live db' = (live db)[i := (live db ! i)\<lparr>modified_at := now\<rparr>]
            \<and> db_count db' = db_count db \<and> db_capacity db' = db_capacity db
            \<and> db_next_id db' = db_next_id db"
proof -
  from assms(2) obtain i where i: "find_note nid (live db) = Some i"
    by (rule find_note_present)
  note fs = find_note_Some[OF i]
  have nth: "notes_of db ! i = live db ! i"
    using fs by (simp add: notes_of_nth_live)
  have t: "edit_title title_arg (live db ! i) = Some (live db ! i)"
    using assms(3) by (auto simp: edit_title_def given_def)
  have c: "edit_content content_arg (live db ! i) = Some (live db ! i)"
    using assms(4) by (auto simp: edit_content_def given_def)
  have "cn_note_edit now nid title_arg content_arg None db
          = (True, store_note db i ((live db ! i)\<lparr>modified_at := now\<rparr>))"
    using assms(1) i by (simp add: cn_note_edit_def nth t c edit_tags_def)
  then show ?thesis using i fs
    by (simp add: live_store_note) (simp add: store_note_def)
qed

theorem edit_without_fields_witness:
  "(2 :: u32) \<noteq> 0 \<and> 2 \<in> note_id ` set (live ex_db)
   \<and> (\<exists>db'. cn_note_edit 77 2 None (Some []) None ex_db = (True, db')
         \<and> live db' = [ex_note 1 ''one'', (ex_note 2 ''two'')\<lparr>modified_at := 77\<rparr>])"
proof -
  have l: "live ex_db = [ex_note 1 ''one'', ex_note 2 ''two'']"
    by (simp add: live_def ex_db_def notes_of_def)
  have h1: "(2 :: u32) \<noteq> 0"
    by simp
  have h2: "2 \<in> note_id ` set (live ex_db)"
    by (simp add: l ex_note_def)
  have f: "find_note 2 (live ex_db) = Some 1"
    by (simp add: l ex_note_def)
  from edit_without_fields[OF h1 h2, of None "Some []" 77] f h1 h2 show ?thesis
    by (auto simp: l)
qed

subsection \<open>Trimming\<close>

lemma cn_strip_whitespace_eq:
  "cn_strip_whitespace str = dropWhile isspace (rev (dropWhile isspace (rev str)))"
  by (simp add: cn_strip_whitespace_def Let_def dropWhile_eq_drop[symmetric])
    (simp add: dropWhile_eq_drop)

lemma strip_no_space:
  assumes "str \<noteq> []" and "\<not> isspace (hd str)" and "\<not> isspace (last str)"
  shows "cn_strip_whitespace str = str"
proof -
  have a: "dropWhile isspace (rev str) = rev str"
    using assms by (simp add: dropWhile_eq_self_iff hd_rev)
  have b: "dropWhile isspace str = str"
    using assms by (simp add: dropWhile_eq_self_iff)
  show ?thesis
    by (simp add: cn_strip_whitespace_eq a b)
qed

lemma take_one_update_replicate: "0 < n \<Longrightarrow> take (Suc 0) ((replicate n z)[0 := x]) = [x]"
  by (cases n) simp_all

lemma live_ex_db: "live ex_db = [ex_note 1 ''one'', ex_note 2 ''two'']"
  by (simp add: live_def ex_db_def notes_of_def)

subsection \<open>A rejected edit\<close>

text \<open>
  C2. The claim is that an edit rejected for an oversized title or content leaves the store
  unchanged. The code checks each field inside the block that writes it: editing note 2
  with the valid title \<open>renamed\<close> and a content of 8192 bytes returns 0 after the title
  has been written, and the store differs from the one before the call.
\<close>

theorem edit_partial_commit:
  "cn_note_edit 77 2 (Some ''renamed'') (Some (replicate 8192 (CHR ''x''))) None ex_db
     = (False, ex_db\<lparr>db_notes := Some [ex_note 1 ''one'', ex_note 2 ''renamed'', zero_note, zero_note]\<rparr>)
   \<and> ex_db\<lparr>db_notes := Some [ex_note 1 ''one'', ex_note 2 ''renamed'', zero_note, zero_note]\<rparr> \<noteq> ex_db"
proof -
  have f: "find_note 2 (live ex_db) = Some 1"
    by (simp add: live_ex_db ex_note_def)
  have s: "cn_strip_whitespace ''renamed'' = ''renamed''"
    by (rule strip_no_space) (simp_all add: isspace_def)
  have t: "edit_title (Some ''renamed'') (ex_note 2 ''two'') = Some (ex_note 2 ''renamed'')"
    by (simp add: edit_title_def given_def MAX_TITLE_LEN_def cn_safe_strncpy_def s ex_note_def)
  have c: "edit_content (Some (replicate 8192 (CHR ''x''))) (ex_note 2 ''renamed'') = None"
    by (simp add: edit_content_def given_def MAX_CONTENT_LEN_def)
  have n: "notes_of ex_db ! Suc 0 = ex_note 2 ''two''"
    by (simp add: notes_of_def ex_db_def)
  have "cn_note_edit 77 2 (Some ''renamed'') (Some (replicate 8192 (CHR ''x''))) None ex_db
     = (False, store_note ex_db 1 (ex_note 2 ''renamed''))"
    by (simp add: cn_note_edit_def f n t c)
  moreover have "store_note ex_db 1 (ex_note 2 ''renamed'')
     = ex_db\<lparr>db_notes := Some [ex_note 1 ''one'', ex_note 2 ''renamed'', zero_note, zero_note]\<rparr>"
    by (simp add: store_note_def notes_of_def ex_db_def)
  moreover have "ex_db\<lparr>db_notes := Some [ex_note 1 ''one'', ex_note 2 ''renamed'', zero_note, zero_note]\<rparr> \<noteq> ex_db"
    by (simp add: ex_db_def ex_note_def)
  ultimately show ?thesis by simp
qed

subsection \<open>Adding a note with a blank title\<close>

text \<open>
  C3. The claim is that every note stored by a successful \<^verbatim>\<open>cn_note_add\<close> has a non-empty
  title and content. The code tests for the empty string before it trims: on the store
  that \<^verbatim>\<open>cn_db_init\<close> sets up, adding the title \<open>" "\<close> with the content \<open>"x"\<close> succeeds
  with id 1, and the stored title is empty.
\<close>

theorem add_blank_title_stored_empty:
  "\<exists>db db'. cn_db_init True ex_unallocated = Inr db
      \<and> cn_note_add True 5 (Some '' '') (Some ''x'') None db = Inr (1, db')
      \<and> live db' = [\<lparr>note_id = 1, title = [], content = ''x'', tags = [],
                       created_at = 5, modified_at = 5\<rparr>]"
proof -
  let ?db = "\<lparr>db_notes = Some (replicate 64 zero_note),
                db_count = 0, db_capacity = 64, db_next_id = 1\<rparr>"
  have i: "cn_db_init True ex_unallocated = Inr ?db"
    by (simp add: cn_db_init_def ex_unallocated_def INITIAL_CAPACITY_def)
  have e: "ensure_capacity_for_one True ?db = Inr (True, ?db)"
    by (simp add: ensure_capacity_for_one_def INITIAL_CAPACITY_def)
  have s1: "cn_strip_whitespace '' '' = []"
    by (simp add: cn_strip_whitespace_def isspace_def)
  have s2: "cn_strip_whitespace ''x'' = ''x''"
    by (rule strip_no_space) (simp_all add: isspace_def)
  have s3: "cn_strip_whitespace [] = []"
    by (simp add: cn_strip_whitespace_def)
  have "\<exists>db'. cn_note_add True 5 (Some '' '') (Some ''x'') None ?db = Inr (1, db')
      \<and> live db' = [\<lparr>note_id = 1, title = [], content = ''x'', tags = [],
                       created_at = 5, modified_at = 5\<rparr>]"
    by (simp add: cn_note_add_def e MAX_TITLE_LEN_def MAX_CONTENT_LEN_def MAX_NOTES_def
        cn_safe_strncpy_def s1 s2 s3 Let_def live_def notes_of_def take_one_update_replicate)
  with i show ?thesis by blast
qed

subsection \<open>Loading\<close>

lemma cn_db_init_unallocated:
  "db_notes db = None \<Longrightarrow> cn_db_init True db = Inr fresh_store"
  by (simp add: cn_db_init_def fresh_store_def)

lemma live_fresh_store: "live fresh_store = []"
  by (simp add: live_def fresh_store_def)

lemma add_to_empty_allocated:
  assumes "t \<noteq> []" and "c \<noteq> []" and "length t < MAX_TITLE_LEN" and "length c < MAX_CONTENT_LEN"
    and "case g of None \<Rightarrow> True | Some x \<Rightarrow> length x < MAX_TAGS_LEN"
  shows "\<exists>db'' n. cn_note_add alloc_ok now (Some t) (Some c) g
               \<lparr>db_notes = Some (replicate 64 zero_note), db_count = 0, db_capacity = 64,
                db_next_id = k\<rparr>
             = Inr (k, db'')
           \<and> live db'' = [n] \<and> note_id n = k"
proof -
  let ?db = "\<lparr>db_notes = Some (replicate 64 zero_note), db_count = 0, db_capacity = 64,
              db_next_id = k\<rparr>"
  have e: "ensure_capacity_for_one alloc_ok ?db = Inr (True, ?db)"
    by (simp add: ensure_capacity_for_one_def)
  have v: "\<not> MAX_TITLE_LEN \<le> length t" "\<not> MAX_CONTENT_LEN \<le> length c"
    "\<not> (case g of None \<Rightarrow> False | Some x \<Rightarrow> MAX_TAGS_LEN \<le> length x)"
    using assms(3,4,5) by (auto split: option.splits)
  show ?thesis
    using assms(1,2)
    by (simp add: cn_note_add_def e v MAX_NOTES_def Let_def live_def notes_of_def
        take_one_update_replicate)
qed

text \<open>
  C8. Loading into a store that is not yet allocated (the state in which the process
  calls \<^verbatim>\<open>cn_db_load\<close>), with the allocation of \<^verbatim>\<open>cn_db_init\<close> succeeding: a snapshot whose
  header holds count 0 and a nonzero next id gives the allocated store of \<^verbatim>\<open>cn_db_init\<close>
  (64 zero slots, count 0, no live note) with the next id of the file, whatever follows
  the header; and the next \<^verbatim>\<open>cn_note_add\<close> with arguments that pass its validation hands out
  exactly the next id of the file, so no id is handed out again.
\<close>

theorem load_empty_snapshot_keeps_next_id:
  assumes "db_notes db = None" and "file_next_id \<noteq> 0"
    and "t \<noteq> []" and "c \<noteq> []" and "length t < MAX_TITLE_LEN" and "length c < MAX_CONTENT_LEN"
    and "case g of None \<Rightarrow> True | Some x \<Rightarrow> length x < MAX_TAGS_LEN"
  shows "\<exists>db' db'' n.
           cn_db_load True calloc_ok (Some (Snapshot 0 file_next_id records)) db = Inr db'
           \<and> db' = \<lparr>db_notes = Some (replicate 64 zero_note), db_count = 0, db_capacity = 64,
                      db_next_id = file_next_id\<rparr>
           \<and> db_wf db' \<and> live db' = []
           \<and> cn_note_add alloc_ok now (Some t) (Some c) g db' = Inr (file_next_id, db'')
           \<and> live db'' = [n] \<and> note_id n = file_next_id"
proof -
  let ?db' = "\<lparr>db_notes = Some (replicate 64 zero_note), db_count = 0, db_capacity = 64,
               db_next_id = file_next_id\<rparr>"
  have l: "cn_db_load True calloc_ok (Some (Snapshot 0 file_next_id records)) db = Inr ?db'"
    using assms(1,2)
    by (simp add: cn_db_load_def cn_db_init_unallocated MAX_NOTES_def)
      (simp add: fresh_store_def INITIAL_CAPACITY_def)
  have w: "db_wf ?db'" "live ?db' = []"
    by (simp_all add: db_wf_def live_def)
  from add_to_empty_allocated[OF assms(3-7), of alloc_ok now file_next_id]
  obtain db'' n where a: "cn_note_add alloc_ok now (Some t) (Some c) g ?db' = Inr (file_next_id, db'')"
    "live db'' = [n]" "note_id n = file_next_id"
    by blast
  show ?thesis
    using l w a by (intro exI[of _ ?db'] exI[of _ db''] exI[of _ n]) simp
qed

theorem load_empty_snapshot_keeps_next_id_witness:
  "db_notes ex_unallocated = None \<and> (41 :: u32) \<noteq> 0
   \<and> (\<exists>db' db'' n. cn_db_load True True (Some (Snapshot 0 41 [])) ex_unallocated = Inr db'
          \<and> db_notes db' = Some (replicate 64 zero_note) \<and> db_count db' = 0
          \<and> db_next_id db' = 41
          \<and> cn_note_add True 9 (Some ''git'') (Some ''status'') None db' = Inr (41, db'')
          \<and> live db'' = [n] \<and> note_id n = 41)"
proof -
  have h1: "db_notes ex_unallocated = None"
    by (simp add: ex_unallocated_def)
  have h2: "(41 :: u32) \<noteq> 0"
    by simp
  have h3: "''git'' \<noteq> []" "''status'' \<noteq> []" "length ''git'' < MAX_TITLE_LEN"
    "length ''status'' < MAX_CONTENT_LEN"
    "case None :: string option of None \<Rightarrow> True | Some x \<Rightarrow> length x < MAX_TAGS_LEN"
    by (simp_all add: MAX_TITLE_LEN_def MAX_CONTENT_LEN_def)
  from load_empty_snapshot_keeps_next_id[OF h1 h2 h3, of True "[]" True 9]
  obtain db' db'' n where
    "cn_db_load True True (Some (Snapshot 0 41 [])) ex_unallocated = Inr db'"
    "db' = \<lparr>db_notes = Some (replicate 64 zero_note), db_count = 0, db_capacity = 64,
            db_next_id = 41\<rparr>"
    "cn_note_add True 9 (Some ''git'') (Some ''status'') None db' = Inr (41, db'')"
    "live db'' = [n]" "note_id n = 41"
    by blast
  then have "\<exists>db' db'' n. cn_db_load True True (Some (Snapshot 0 41 [])) ex_unallocated = Inr db'
          \<and> db_notes db' = Some (replicate 64 zero_note) \<and> db_count db' = 0
          \<and> db_next_id db' = 41
          \<and> cn_note_add True 9 (Some ''git'') (Some ''status'') None db' = Inr (41, db'')
          \<and> live db'' = [n] \<and> note_id n = 41"
    by (intro exI[of _ db'] exI[of _ db''] exI[of _ n]) simp
  with h1 h2 show ?thesis
    by simp
qed

text \<open>
  C9, amended. Loading into a store that is not yet allocated, with the allocation of
  \<^verbatim>\<open>cn_db_init\<close> succeeding: for a missing file and for every malformed snapshot (header cut
  short, count above \<open>MAX_NOTES\<close>, next id zero, fewer records than the count announces)
  \<^verbatim>\<open>cn_db_load\<close> returns the store of \<^verbatim>\<open>cn_db_init\<close> (count 0, next id 1, no live note),
  except when the header passes the sanity checks with a nonzero count and the \<^verbatim>\<open>calloc\<close>
  of the array for the announced records fails: then the process ends in
  \<^verbatim>\<open>cn_error_exit\<close>, before the short read is noticed.
\<close>

theorem load_malformed_outcome:
  assumes "db_notes db = None"
    and "file = None \<or> (\<exists>s. file = Some s \<and> spec_malformed s)"
  shows "cn_db_load True calloc_ok file db =
           (if (\<exists>s. file = Some s \<and> header_accepted s) \<and> \<not> calloc_ok
            then Inl (Error_exit ''Failed to allocate memory for database'')
            else Inr fresh_store)
         \<and> db_notes fresh_store = Some (replicate 64 zero_note)
         \<and> db_count fresh_store = 0 \<and> db_next_id fresh_store = 1 \<and> live fresh_store = []"
proof -
  have "cn_db_load True calloc_ok file db =
           (if (\<exists>s. file = Some s \<and> header_accepted s) \<and> \<not> calloc_ok
            then Inl (Error_exit ''Failed to allocate memory for database'')
            else Inr fresh_store)"
  proof (cases "file")
    case None
    with assms(1) show ?thesis
      by (simp add: cn_db_load_def cn_db_init_unallocated)
  next
    case (Some s)
    with assms(2) have m: "spec_malformed s"
      by simp
    show ?thesis
    proof (cases s)
      case Truncated_in_count
      with Some assms(1) show ?thesis
        by (simp add: cn_db_load_def cn_db_init_unallocated)
    next
      case (Truncated_in_next_id c)
      with Some assms(1) show ?thesis
        by (simp add: cn_db_load_def cn_db_init_unallocated)
    next
      case (Snapshot c n rs)
      with m have "MAX_NOTES < c \<or> n = 0 \<or> length rs < unat c"
        by simp
      with Some Snapshot assms(1) show ?thesis
        by (auto simp: cn_db_load_def cn_db_init_unallocated Let_def)
    qed
  qed
  then show ?thesis
    by (simp add: live_fresh_store) (simp add: fresh_store_def INITIAL_CAPACITY_def)
qed

theorem load_malformed_outcome_witness:
  "db_notes ex_unallocated = None
   \<and> spec_malformed (Snapshot 3 7 [ex_note 1 ''one''])
   \<and> spec_malformed (Snapshot 3 0 [])
   \<and> cn_db_load True True (Some (Snapshot 3 7 [ex_note 1 ''one''])) ex_unallocated = Inr fresh_store
   \<and> cn_db_load True False (Some (Snapshot 3 0 [])) ex_unallocated = Inr fresh_store
   \<and> cn_db_load True False (Some (Truncated_in_next_id 3)) ex_unallocated = Inr fresh_store
   \<and> cn_db_load True False None ex_unallocated = Inr fresh_store"
proof -
  have h1: "db_notes ex_unallocated = None"
    by (simp add: ex_unallocated_def)
  have h2: "spec_malformed (Snapshot 3 7 [ex_note 1 ''one''])"
    by simp
  have h3: "spec_malformed (Truncated_in_next_id 3)"
    by simp
  have h4: "spec_malformed (Snapshot 3 0 [])"
    by simp
  from load_malformed_outcome[OF h1, of "Some (Snapshot 3 7 [ex_note 1 ''one''])" True]
    load_malformed_outcome[OF h1, of "Some (Snapshot 3 0 [])" False]
    load_malformed_outcome[OF h1, of "Some (Truncated_in_next_id 3)" False]
    load_malformed_outcome[OF h1, of None False] h1 h2 h3 h4
  show ?thesis
    by simp
qed

text \<open>
  C9, as stated, fails for a snapshot whose header announces 1000000 records and which
  holds one: the loader asks for the whole array first, and when that allocation fails it
  ends the process instead of falling back to the empty store.
\<close>

theorem load_malformed_exit_counterexample:
  "db_notes ex_unallocated = None
   \<and> spec_malformed (Snapshot 1000000 7 [ex_note 1 ''one''])
   \<and> cn_db_load True False (Some (Snapshot 1000000 7 [ex_note 1 ''one''])) ex_unallocated
       = Inl (Error_exit ''Failed to allocate memory for database'')"
  by (simp add: ex_unallocated_def cn_db_load_def MAX_NOTES_def Let_def)

subsection \<open>Growth\<close>

lemma guard_val: "SIZE_MAX div GROWTH_FACTOR div sizeof_cn_note = (1026644260558189 :: 64 word)"
  by (simp add: SIZE_MAX_def GROWTH_FACTOR_def sizeof_cn_note_def)

lemma guard_iff:
  "(SIZE_MAX div GROWTH_FACTOR div sizeof_cn_note < (c :: size_t)) \<longleftrightarrow> 2 ^ 64 \<le> unat c * 2 * 8984"
proof -
  have "(1026644260558189 < c) \<longleftrightarrow> 1026644260558189 < unat c"
    by (simp add: word_less_nat_alt)
  moreover have "(1026644260558189 < unat c) \<longleftrightarrow> 2 ^ 64 \<le> unat c * 2 * 8984"
    by simp arith
  ultimately show ?thesis unfolding guard_val by simp
qed

lemma unat_doubled:
  assumes "unat (c :: size_t) * 2 * 8984 < 2 ^ 64"
  shows "unat (c * GROWTH_FACTOR) = unat c * 2"
  using assms by (simp add: GROWTH_FACTOR_def unat_word_ariths)

lemma unat_bytes:
  assumes "unat (n :: size_t) * 8984 < 2 ^ 64"
  shows "unat (n * sizeof_cn_note) = unat n * 8984"
  using assms by (simp add: sizeof_cn_note_def unat_word_ariths)

lemma unat_new_capacity:
  assumes "unat (c :: size_t) * 2 * 8984 < 2 ^ 64"
  shows "unat (if MAX_NOTES < c * GROWTH_FACTOR then MAX_NOTES else c * GROWTH_FACTOR)
           = spec_new_capacity (unat c)"
  using unat_doubled[OF assms]
  by (simp add: spec_new_capacity_def word_less_nat_alt MAX_NOTES_def)

lemma realloc_zero_grow:
  assumes "length arr = unat c" and "unat c < unat n" and "unat (n :: size_t) * 8984 < 2 ^ 64"
  shows "realloc_zero arr (c * sizeof_cn_note) (n * sizeof_cn_note)
           = arr @ replicate (unat n - unat c) zero_note"
proof -
  have c: "unat c * 8984 < 2 ^ 64"
    using assms(2,3) by simp
  have "unat (sizeof_cn_note) = 8984"
    by (simp add: sizeof_cn_note_def)
  then show ?thesis
    using assms by (simp add: realloc_zero_def unat_bytes c word_less_nat_alt)
qed

lemma ensure_capacity_full_eq:
  assumes "db_notes db = Some arr" and "length arr = unat (db_capacity db)"
    and "db_count db = db_capacity db"
  shows "ensure_capacity_for_one alloc_ok db =
           (if unat (db_capacity db) * 2 * unat sizeof_cn_note \<le> unat SIZE_MAX
               \<and> unat (db_capacity db) < spec_new_capacity (unat (db_capacity db)) \<and> alloc_ok
            then Inr (True, db\<lparr>db_notes := Some (arr @ replicate
                                  (spec_new_capacity (unat (db_capacity db)) - unat (db_capacity db))
                                  zero_note),
                               db_capacity := of_nat (spec_new_capacity (unat (db_capacity db)))\<rparr>)
            else Inr (False, db))
         \<and> unat (of_nat (spec_new_capacity (unat (db_capacity db))) :: size_t)
             = spec_new_capacity (unat (db_capacity db))"
proof -
  let ?c = "db_capacity db"
  define n where "n = (if MAX_NOTES < ?c * GROWTH_FACTOR then MAX_NOTES else ?c * GROWTH_FACTOR)"
  have sz: "unat sizeof_cn_note = 8984" "unat SIZE_MAX = 2 ^ 64 - 1"
    by (simp_all add: sizeof_cn_note_def SIZE_MAX_def)
  have small: "unat (of_nat (spec_new_capacity (unat ?c)) :: size_t) = spec_new_capacity (unat ?c)"
    by (simp add: spec_new_capacity_def unat_of_nat min_def)
  have full: "\<not> db_count db < ?c"
    using assms(3) by simp
  show ?thesis
  proof (cases "2 ^ 64 \<le> unat ?c * 2 * 8984")
    case True
    then have "SIZE_MAX div GROWTH_FACTOR div sizeof_cn_note < ?c"
      by (simp add: guard_iff)
    then have "ensure_capacity_for_one alloc_ok db = Inr (False, db)"
      using assms(1) full by (simp add: ensure_capacity_for_one_def)
    with True show ?thesis
      by (simp add: sz small)
  next
    case False
    then have ok: "unat ?c * 2 * 8984 < 2 ^ 64"
      by simp
    then have g: "\<not> SIZE_MAX div GROWTH_FACTOR div sizeof_cn_note < ?c"
      by (simp add: guard_iff)
    have n: "unat n = spec_new_capacity (unat ?c)"
      unfolding n_def by (rule unat_new_capacity[OF ok])
    have n_word: "of_nat (spec_new_capacity (unat ?c)) = n"
      unfolding n[symmetric] by simp
    have le: "(n \<le> ?c) \<longleftrightarrow> \<not> unat ?c < spec_new_capacity (unat ?c)"
      using n by (simp add: word_le_nat_alt not_less)
    have fits: "unat n * 8984 < 2 ^ 64"
      using ok unfolding n by (simp add: spec_new_capacity_def min_def)
    have unfolded: "ensure_capacity_for_one alloc_ok db =
        (if n \<le> ?c then Inr (False, db)
         else if \<not> alloc_ok then Inr (False, db)
         else Inr (True, db\<lparr>db_notes := Some (realloc_zero arr (?c * sizeof_cn_note) (n * sizeof_cn_note)),
                            db_capacity := n\<rparr>))"
      using assms(1) full g unfolding n_def
      by (simp add: ensure_capacity_for_one_def Let_def del: if_split cong: if_cong)
    show ?thesis
    proof (cases "unat ?c < spec_new_capacity (unat ?c) \<and> alloc_ok")
      case True
      then have lt: "unat ?c < unat n"
        using n by simp
      have "realloc_zero arr (?c * sizeof_cn_note) (n * sizeof_cn_note)
              = arr @ replicate (unat n - unat ?c) zero_note"
        by (rule realloc_zero_grow[OF assms(2) lt fits])
      with True le ok show ?thesis
        unfolding unfolded by (simp add: sz small n n_word)
    next
      case False
      with le ok show ?thesis
        unfolding unfolded by (auto simp: sz small)
    qed
  qed
qed

text \<open>
  C6. For an allocated store that is full (\<open>count = capacity\<close>, the array holding
  \<open>capacity\<close> slots): \<^verbatim>\<open>ensure_capacity_for_one\<close> never exits; it succeeds exactly when
  the byte size of the doubled capacity fits \<^verbatim>\<open>size_t\<close> (computed without wrap-around),
  the capacity times 2 clamped to \<open>MAX_NOTES\<close> exceeds the capacity, and \<^verbatim>\<open>realloc\<close>
  succeeds; otherwise it returns 0 and leaves the store as it is. On success the new
  capacity is the clamped double (it fits \<^verbatim>\<open>size_t\<close>), the old slots keep their values
  and the added slots are zero.
\<close>

theorem ensure_capacity_when_full:
  assumes "db_notes db = Some arr" and "length arr = unat (db_capacity db)"
    and "db_count db = db_capacity db"
  shows "ensure_capacity_for_one alloc_ok db =
           (if unat (db_capacity db) * 2 * unat sizeof_cn_note \<le> unat SIZE_MAX
               \<and> unat (db_capacity db) < spec_new_capacity (unat (db_capacity db)) \<and> alloc_ok
            then Inr (True, db\<lparr>db_notes := Some (arr @ replicate
                                  (spec_new_capacity (unat (db_capacity db)) - unat (db_capacity db))
                                  zero_note),
                               db_capacity := of_nat (spec_new_capacity (unat (db_capacity db)))\<rparr>)
            else Inr (False, db))
         \<and> unat (of_nat (spec_new_capacity (unat (db_capacity db))) :: size_t)
             = spec_new_capacity (unat (db_capacity db))"
  using assms by (rule ensure_capacity_full_eq)

theorem ensure_capacity_when_full_witness:
  "db_notes ex_full_db = Some [ex_note 1 ''one'', ex_note 2 ''two'']
   \<and> length [ex_note 1 ''one'', ex_note 2 ''two''] = unat (db_capacity ex_full_db)
   \<and> db_count ex_full_db = db_capacity ex_full_db
   \<and> ensure_capacity_for_one True ex_full_db
       = Inr (True, ex_full_db\<lparr>db_notes := Some [ex_note 1 ''one'', ex_note 2 ''two'', zero_note, zero_note],
                               db_capacity := 4\<rparr>)
   \<and> ensure_capacity_for_one False ex_full_db = Inr (False, ex_full_db)"
proof -
  have h1: "db_notes ex_full_db = Some [ex_note 1 ''one'', ex_note 2 ''two'']"
    by (simp add: ex_full_db_def)
  have h2: "length [ex_note 1 ''one'', ex_note 2 ''two''] = unat (db_capacity ex_full_db)"
    by (simp add: ex_full_db_def)
  have h3: "db_count ex_full_db = db_capacity ex_full_db"
    by (simp add: ex_full_db_def)
  have c: "unat (db_capacity ex_full_db) = 2" "spec_new_capacity 2 = 4"
    "unat sizeof_cn_note = 8984" "unat SIZE_MAX = 2 ^ 64 - 1"
    by (simp_all add: ex_full_db_def spec_new_capacity_def sizeof_cn_note_def SIZE_MAX_def)
  have r: "replicate 2 zero_note = [zero_note, zero_note]"
    by (simp add: numeral_2_eq_2)
  from ensure_capacity_when_full[OF h1 h2 h3, of True]
    ensure_capacity_when_full[OF h1 h2 h3, of False] h1 h2 h3
  show ?thesis
    by (simp add: c r)
qed

subsection \<open>Deleting\<close>

lemma db_wf_notes_of: "db_wf db \<Longrightarrow> length (notes_of db) = unat (db_capacity db)"
  by (auto simp: db_wf_def notes_of_def split: option.splits)

lemma db_wf_length_live: "db_wf db \<Longrightarrow> length (live db) = unat (db_count db)"
  by (auto simp: db_wf_def live_def notes_of_def word_le_nat_alt split: option.splits)

lemma mset_remove_unique:
  assumes "length (filter P xs) = 1" and "i < length xs" and "P (xs ! i)"
  shows "mset xs - {#xs ! i#} = mset (filter (\<lambda>x. \<not> P x) xs)"
proof -
  have "size {#x \<in># mset xs. P x#} = 1"
    using assms(1) by (metis mset_filter size_mset)
  then obtain a where a: "{#x \<in># mset xs. P x#} = {#a#}"
    using size_1_singleton_mset by blast
  have "xs ! i \<in># {#x \<in># mset xs. P x#}"
    using assms(2,3) by simp
  with a have "a = xs ! i"
    by simp
  with a have "mset xs = {#xs ! i#} + {#x \<in># mset xs. \<not> P x#}"
    using multiset_partition[of "mset xs" P] by simp
  then have "mset xs - {#xs ! i#} = {#x \<in># mset xs. \<not> P x#}"
    by (metis add_diff_cancel_left')
  then show ?thesis
    by simp
qed

lemma mset_swap_with_last:
  assumes "i < length xs"
  shows "mset (take (length xs - 1) (if i < length xs - 1 then xs[i := xs ! (length xs - 1)] else xs))
           = mset xs - {#xs ! i#}"
proof (cases xs rule: rev_cases)
  case Nil
  with assms show ?thesis by simp
next
  case (snoc ys y)
  show ?thesis
  proof (cases "i < length ys")
    case True
    then show ?thesis
      using snoc by (simp add: list_update_append nth_append mset_update)
  next
    case False
    with assms snoc have "i = length ys"
      by simp
    then show ?thesis
      using snoc by simp
  qed
qed

lemma cn_note_delete_found:
  assumes "db_wf db" and "nid \<noteq> 0" and "find_note nid (live db) = Some i"
  shows "\<exists>db'. cn_note_delete nid db = (True, db')
           \<and> db_count db' = db_count db - 1
           \<and> unat (db_count db') + 1 = unat (db_count db)
           \<and> length (live db') + 1 = length (live db)
           \<and> mset (live db') = mset (live db) - {#live db ! i#}
           \<and> db_wf db' \<and> db_next_id db' = db_next_id db
           \<and> db_capacity db' = db_capacity db"
proof -
  let ?xs = "live db"
  let ?k = "unat (db_count db)"
  note fs = find_note_Some[OF assms(3)]
  have len: "length ?xs = ?k"
    by (rule db_wf_length_live[OF assms(1)])
  have k: "0 < ?k" "db_count db \<noteq> 0"
    using fs len by (auto simp: unat_gt_0[symmetric])
  have last: "unat (db_count db - 1) = ?k - 1"
    using k(2) by (rule unat_minus_one)
  define moved where "moved = (if i < ?k - 1 then (notes_of db)[i := notes_of db ! (?k - 1)] else notes_of db)"
  define db' where "db' = db\<lparr>db_notes := Some (moved[?k - 1 := zero_note]), db_count := db_count db - 1\<rparr>"
  have res: "cn_note_delete nid db = (True, db')"
    using assms(2,3) by (simp add: cn_note_delete_def Let_def last db'_def moved_def)
  have "live db' = take (?k - 1) moved"
    by (simp add: live_def db'_def notes_of_def last)
  also have "\<dots> = take (?k - 1) (if i < ?k - 1 then ?xs[i := ?xs ! (?k - 1)] else ?xs)"
  proof -
    have a: "?xs ! (?k - 1) = notes_of db ! (?k - 1)"
      using k(1) by (simp add: live_def)
    have b: "take (?k - 1) ?xs = take (?k - 1) (notes_of db)"
      by (simp add: live_def min_def)
    show ?thesis
      using a b by (simp add: moved_def take_update_swap)
  qed
  also have "\<dots> = take (length ?xs - 1) (if i < length ?xs - 1 then ?xs[i := ?xs ! (length ?xs - 1)] else ?xs)"
    unfolding len ..
  finally have live': "live db' = take (length ?xs - 1)
      (if i < length ?xs - 1 then ?xs[i := ?xs ! (length ?xs - 1)] else ?xs)" .
  have m: "mset (live db') = mset ?xs - {#?xs ! i#}"
    unfolding live' using fs by (intro mset_swap_with_last) simp
  have "length (live db') = length ?xs - 1"
    unfolding live' by simp
  then have l: "length (live db') + 1 = length ?xs"
    using k(1) len by simp
  have c: "db_count db' = db_count db - 1" "db_next_id db' = db_next_id db"
    "db_capacity db' = db_capacity db"
    by (simp_all add: db'_def)
  have "length moved = length (notes_of db)"
    by (simp add: moved_def)
  moreover have "db_count db - 1 \<le> db_capacity db"
    using assms(1) last by (auto simp: db_wf_def word_le_nat_alt split: option.splits)
  ultimately have wf: "db_wf db'"
    using db_wf_notes_of[OF assms(1)] by (simp add: db_wf_def db'_def)
  show ?thesis
    using res c last k(1) l m wf by auto
qed

text \<open>
  C4, amended. In a well-formed store, for a nonzero id that exactly one live note
  carries: \<^verbatim>\<open>cn_note_delete\<close> succeeds, the count drops by exactly one, the id is no longer
  present, and the live notes are the former live notes without that one, each with all
  its fields (as a multiset: the order may change).
\<close>

theorem delete_live_note:
  assumes "db_wf db" and "nid \<noteq> 0"
    and "length (filter (\<lambda>n. note_id n = nid) (live db)) = 1"
  shows "\<exists>db'. cn_note_delete nid db = (True, db')
           \<and> db_count db' = db_count db - 1
           \<and> unat (db_count db') + 1 = unat (db_count db)
           \<and> length (live db') + 1 = length (live db)
           \<and> nid \<notin> note_id ` set (live db')
           \<and> mset (live db') = mset (filter (\<lambda>n. note_id n \<noteq> nid) (live db))"
proof -
  have "filter (\<lambda>n. note_id n = nid) (live db) \<noteq> []"
    using assms(3) by auto
  then have "nid \<in> note_id ` set (live db)"
    by (auto simp: filter_empty_conv)
  then obtain i where i: "find_note nid (live db) = Some i"
    by (rule find_note_present)
  note fs = find_note_Some[OF i]
  from cn_note_delete_found[OF assms(1,2) i] obtain db' where
    d: "cn_note_delete nid db = (True, db')" "db_count db' = db_count db - 1"
      "unat (db_count db') + 1 = unat (db_count db)" "length (live db') + 1 = length (live db)"
      "mset (live db') = mset (live db) - {#live db ! i#}"
    by blast
  have "mset (live db) - {#live db ! i#} = mset (filter (\<lambda>n. \<not> note_id n = nid) (live db))"
    using assms(3) fs by (intro mset_remove_unique) simp_all
  with d(5) have m: "mset (live db') = mset (filter (\<lambda>n. note_id n \<noteq> nid) (live db))"
    by simp
  then have "set (live db') = set (filter (\<lambda>n. note_id n \<noteq> nid) (live db))"
    by (rule mset_eq_setD)
  then have "nid \<notin> note_id ` set (live db')"
    by auto
  with d m show ?thesis
    by blast
qed

theorem delete_live_note_witness:
  "db_wf ex_db \<and> (1 :: u32) \<noteq> 0
   \<and> length (filter (\<lambda>n. note_id n = 1) (live ex_db)) = 1
   \<and> fst (cn_note_delete 1 ex_db)
   \<and> 1 \<notin> note_id ` set (live (snd (cn_note_delete 1 ex_db)))
   \<and> mset (live (snd (cn_note_delete 1 ex_db))) = {#ex_note 2 ''two''#}"
proof -
  have h1: "db_wf ex_db"
    by (simp add: db_wf_def ex_db_def)
  have h2: "(1 :: u32) \<noteq> 0"
    by simp
  have h3: "length (filter (\<lambda>n. note_id n = 1) (live ex_db)) = 1"
    by (simp add: live_ex_db ex_note_def)
  have "filter (\<lambda>n. note_id n \<noteq> 1) (live ex_db) = [ex_note 2 ''two'']"
    by (simp add: live_ex_db ex_note_def)
  with delete_live_note[OF h1 h2 h3] h1 h2 h3 show ?thesis
    by auto
qed

text \<open>
  C4, as stated, fails on a store in which two live notes carry the id: the delete
  succeeds and the count drops by one, but the id is still present.
\<close>

theorem delete_duplicate_id_counterexample:
  "db_wf ex_dup_db \<and> 1 \<in> note_id ` set (live ex_dup_db)
   \<and> fst (cn_note_delete 1 ex_dup_db)
   \<and> db_count (snd (cn_note_delete 1 ex_dup_db)) = 1
   \<and> 1 \<in> note_id ` set (live (snd (cn_note_delete 1 ex_dup_db)))"
proof -
  have l: "live ex_dup_db = [ex_note 1 ''old'', ex_note 1 ''new'']"
    by (simp add: live_def ex_dup_db_def notes_of_def)
  have f: "find_note 1 (live ex_dup_db) = Some 0"
    by (simp add: l ex_note_def)
  have d: "cn_note_delete 1 ex_dup_db
     = (True, ex_dup_db\<lparr>db_notes := Some [ex_note 1 ''new'', zero_note, zero_note, zero_note],
                         db_count := 1\<rparr>)"
    by (simp add: cn_note_delete_def f Let_def) (simp add: ex_dup_db_def notes_of_def)
  show ?thesis
    unfolding d by (simp add: l) (simp add: db_wf_def live_def notes_of_def ex_dup_db_def ex_note_def)
qed

subsection \<open>What add, edit and delete do to the live notes\<close>

lemma length_strip_le: "length (cn_strip_whitespace s) \<le> length s"
proof -
  have "length (dropWhile isspace (rev (dropWhile isspace (rev s))))
          \<le> length (rev (dropWhile isspace (rev s)))"
    by (rule length_dropWhile_le)
  also have "\<dots> \<le> length (rev s)"
    using length_dropWhile_le[of isspace "rev s"] by simp
  finally show ?thesis
    by (simp add: cn_strip_whitespace_eq)
qed

lemma length_strip_copy:
  "0 < n \<Longrightarrow> length (cn_strip_whitespace (cn_safe_strncpy d s n)) < n"
proof -
  assume n: "0 < n"
  have "length (cn_strip_whitespace (cn_safe_strncpy d s n)) \<le> length (take (n - 1) s)"
    using n length_strip_le[of "take (n - 1) s"] by (simp add: cn_safe_strncpy_def)
  also have "\<dots> \<le> n - 1"
    by simp
  finally show ?thesis
    using n by simp
qed

lemma ensure_capacity_wf:
  assumes "db_wf db" and "ensure_capacity_for_one a db = Inr (True, db1)"
  shows "db_wf db1 \<and> db_count db1 = db_count db \<and> db_next_id db1 = db_next_id db
         \<and> live db1 = live db \<and> db_count db1 < db_capacity db1"
proof -
  from assms(1) obtain arr where arr: "db_notes db = Some arr"
    "length arr = unat (db_capacity db)" "db_count db \<le> db_capacity db"
    by (auto simp: db_wf_def split: option.splits)
  show ?thesis
  proof (cases "db_count db < db_capacity db")
    case True
    with arr assms show ?thesis
      by (simp add: ensure_capacity_for_one_def)
  next
    case False
    with arr(3) have full: "db_count db = db_capacity db"
      by simp
    let ?c = "unat (db_capacity db)"
    let ?n = "spec_new_capacity ?c"
    from ensure_capacity_full_eq[OF arr(1,2) full, of a] assms(2)
    have grow: "?c < ?n" and db1: "db1 = db\<lparr>db_notes := Some (arr @ replicate (?n - ?c) zero_note),
                                           db_capacity := of_nat ?n\<rparr>"
      and u: "unat (of_nat ?n :: size_t) = ?n"
      by (auto split: if_splits)
    have "db_wf db1"
      using grow u arr(2) full by (simp add: db1 db_wf_def word_le_nat_alt)
    moreover have "live db1 = live db"
      using arr(1,2) full by (simp add: db1 live_def notes_of_def)
    moreover have "db_count db1 < db_capacity db1"
      using grow u full by (simp add: db1 word_less_nat_alt)
    ultimately show ?thesis
      by (simp add: db1)
  qed
qed

lemma ensure_capacity_no_exit:
  "db_wf db \<Longrightarrow> \<exists>r db1. ensure_capacity_for_one a db = Inr (r, db1)"
  by (auto simp: db_wf_def ensure_capacity_for_one_def Let_def split: option.splits)

lemma unat_succ_below: "(x :: size_t) < y \<Longrightarrow> unat (x + 1) = Suc (unat x)"
  using unsigned_less[of y, where ?'a = nat] by (simp add: word_less_nat_alt unat_word_ariths)

lemma cn_note_add_result:
  assumes "db_wf db" and "cn_note_add a now t c g db = Inr (r, db')"
  shows "(r = 0 \<and> db' = db)
       \<or> (\<exists>note. live db' = live db @ [note] \<and> note_id note = db_next_id db \<and> note_bounded note
             \<and> r = db_next_id db
             \<and> db_next_id db' = (if db_next_id db + 1 = 0 then 1 else db_next_id db + 1)
             \<and> db_count db' = db_count db + 1 \<and> db_count db < MAX_NOTES \<and> db_wf db')"
proof (cases "\<exists>t' c'. t = Some t' \<and> c = Some c' \<and> t' \<noteq> [] \<and> c' \<noteq> []
                \<and> length t' < MAX_TITLE_LEN \<and> length c' < MAX_CONTENT_LEN
                \<and> (case g of None \<Rightarrow> True | Some g' \<Rightarrow> length g' < MAX_TAGS_LEN)")
  case False
  with assms(2) have "r = 0 \<and> db' = db"
    by (auto simp: cn_note_add_def not_less split: option.splits if_splits)
  then show ?thesis ..
next
  case True
  then obtain t' c' where v: "t = Some t'" "c = Some c'" "t' \<noteq> []" "c' \<noteq> []"
    "\<not> MAX_TITLE_LEN \<le> length t'" "\<not> MAX_CONTENT_LEN \<le> length c'"
    "\<not> (case g of None \<Rightarrow> False | Some g' \<Rightarrow> MAX_TAGS_LEN \<le> length g')"
    by (auto simp: not_le split: option.splits)
  from ensure_capacity_no_exit[OF assms(1), of a] obtain ok db1
    where e: "ensure_capacity_for_one a db = Inr (ok, db1)"
    by blast
  from assms(2) v e have lim: "db_count db < MAX_NOTES" and ok: "ok"
    by (auto simp: cn_note_add_def not_le split: if_splits)
  from e ok have e': "ensure_capacity_for_one a db = Inr (True, db1)"
    by simp
  from ensure_capacity_wf[OF assms(1) e']
  have d1: "db_wf db1" "db_count db1 = db_count db" "db_next_id db1 = db_next_id db"
    "live db1 = live db" "db_count db1 < db_capacity db1"
    by auto
  let ?slot = "notes_of db1 ! unat (db_count db1)"
  define nn where "nn = \<lparr>note_id = db_next_id db1,
      title = cn_strip_whitespace (cn_safe_strncpy (title ?slot) t' MAX_TITLE_LEN),
      content = cn_strip_whitespace (cn_safe_strncpy (content ?slot) c' MAX_CONTENT_LEN),
      tags = cn_strip_whitespace (case g of None \<Rightarrow> []
                | Some g' \<Rightarrow> if g' \<noteq> [] then cn_safe_strncpy (tags ?slot) g' MAX_TAGS_LEN else []),
      created_at = now, modified_at = now\<rparr>"
  have res: "r = db_next_id db1" "db' = db1\<lparr>db_notes := Some ((notes_of db1)[unat (db_count db1) := nn]),
      db_count := db_count db1 + 1,
      db_next_id := (if db_next_id db1 + 1 = 0 then 1 else db_next_id db1 + 1)\<rparr>"
  proof -
    have nl: "\<not> MAX_NOTES \<le> db_count db"
      using lim by simp
    have "cn_note_add a now t c g db = Inr (db_next_id db1,
        db1\<lparr>db_notes := Some ((notes_of db1)[unat (db_count db1) := nn]),
            db_count := db_count db1 + 1,
            db_next_id := (if db_next_id db1 + 1 = 0 then 1 else db_next_id db1 + 1)\<rparr>)"
      by (simp add: cn_note_add_def v e' nl Let_def nn_def)
    with assms(2) show "r = db_next_id db1"
      and "db' = db1\<lparr>db_notes := Some ((notes_of db1)[unat (db_count db1) := nn]),
      db_count := db_count db1 + 1,
      db_next_id := (if db_next_id db1 + 1 = 0 then 1 else db_next_id db1 + 1)\<rparr>"
      by auto
  qed
  have k: "unat (db_count db1) < length (notes_of db1)"
    using d1(5) db_wf_notes_of[OF d1(1)] by (simp add: word_less_nat_alt)
  have suc: "unat (db_count db1 + 1) = Suc (unat (db_count db1))"
    using d1(5) by (rule unat_succ_below)
  have "live db' = take (Suc (unat (db_count db1))) ((notes_of db1)[unat (db_count db1) := nn])"
    by (simp add: res(2) live_def notes_of_def suc)
  also have "\<dots> = take (unat (db_count db1)) (notes_of db1) @ [nn]"
    using k by (simp add: take_Suc_conv_app_nth)
  finally have l: "live db' = live db @ [nn]"
    using d1(4) by (simp add: live_def)
  have tg: "length (tags nn) < MAX_TAGS_LEN"
  proof (cases g)
    case None
    then show ?thesis
      by (simp add: nn_def cn_strip_whitespace_def MAX_TAGS_LEN_def)
  next
    case (Some g')
    show ?thesis
    proof (cases "g' = []")
      case True
      with Some show ?thesis
        by (simp add: nn_def cn_strip_whitespace_def MAX_TAGS_LEN_def)
    next
      case False
      with Some show ?thesis
        by (simp add: nn_def length_strip_copy MAX_TAGS_LEN_def)
    qed
  qed
  have b: "note_bounded nn"
    using tg by (simp add: note_bounded_def) (simp add: nn_def length_strip_copy MAX_TITLE_LEN_def MAX_CONTENT_LEN_def)
  have wf: "db_wf db'"
    using d1(1,5) suc by (auto simp: res(2) db_wf_def notes_of_def word_le_nat_alt word_less_nat_alt split: option.splits)
  have "note_id nn = db_next_id db"
    by (simp add: nn_def d1)
  with l b res d1 lim wf show ?thesis
    by auto
qed

lemma edit_title_keeps:
  "edit_title a n = Some n1 \<Longrightarrow> note_id n1 = note_id n \<and> (note_bounded n \<longrightarrow> note_bounded n1)"
  by (auto simp: edit_title_def note_bounded_def length_strip_copy MAX_TITLE_LEN_def
      split: option.splits if_splits)

lemma edit_content_keeps:
  "edit_content a n = Some n1 \<Longrightarrow> note_id n1 = note_id n \<and> (note_bounded n \<longrightarrow> note_bounded n1)"
  by (auto simp: edit_content_def note_bounded_def length_strip_copy MAX_CONTENT_LEN_def
      split: option.splits if_splits)

lemma edit_tags_keeps:
  "edit_tags a n = Some n1 \<Longrightarrow> note_id n1 = note_id n \<and> (note_bounded n \<longrightarrow> note_bounded n1)"
  by (auto simp: edit_tags_def note_bounded_def length_strip_copy MAX_TAGS_LEN_def
      split: option.splits if_splits)

lemma cn_note_edit_result:
  assumes "cn_note_edit now nid t c g db = (r, db')"
  shows "db' = db
       \<or> (\<exists>i n'. i < length (live db) \<and> db' = store_note db i n'
             \<and> note_id n' = note_id (live db ! i)
             \<and> (note_bounded (live db ! i) \<longrightarrow> note_bounded n'))"
proof (cases "nid \<noteq> 0 \<and> find_note nid (live db) \<noteq> None")
  case False
  then have "nid = 0 \<or> find_note nid (live db) = None"
    by simp
  then have "db' = db"
    using assms by (auto simp: cn_note_edit_def split: if_splits)
  then show ?thesis ..
next
  case True
  then obtain i where i: "find_note nid (live db) = Some i" and nz: "nid \<noteq> 0"
    by auto
  note fs = find_note_Some[OF i]
  have nth: "notes_of db ! i = live db ! i"
    using fs by (simp add: notes_of_nth_live)
  let ?n = "live db ! i"
  show ?thesis
  proof (cases "edit_title t ?n")
    case None
    with assms nz i nth show ?thesis
      by (simp add: cn_note_edit_def)
  next
    case (Some n1)
    note k1 = edit_title_keeps[OF Some]
    show ?thesis
    proof (cases "edit_content c n1")
      case None
      with assms nz i nth Some have "db' = store_note db i n1"
        by (simp add: cn_note_edit_def)
      with fs k1 show ?thesis
        by blast
    next
      case (Some n2)
      note c2 = Some
      note k2 = edit_content_keeps[OF Some]
      show ?thesis
      proof (cases "edit_tags g n2")
        case None
        with assms nz i nth \<open>edit_title t ?n = Some n1\<close> c2 have "db' = store_note db i n2"
          by (simp add: cn_note_edit_def)
        with fs k1 k2 show ?thesis
          by auto
      next
        case (Some n3)
        note k3 = edit_tags_keeps[OF Some]
        from assms nz i nth \<open>edit_title t ?n = Some n1\<close> c2 Some
        have "db' = store_note db i (n3\<lparr>modified_at := now\<rparr>)"
          by (simp add: cn_note_edit_def)
        moreover have "note_id (n3\<lparr>modified_at := now\<rparr>) = note_id ?n"
          using k1 k2 k3 by simp
        moreover have "note_bounded ?n \<longrightarrow> note_bounded (n3\<lparr>modified_at := now\<rparr>)"
          using k1 k2 k3 by (simp add: note_bounded_def)
        ultimately show ?thesis
          using fs by blast
      qed
    qed
  qed
qed

lemma db_wf_store_note: "db_wf db \<Longrightarrow> db_wf (store_note db i n)"
  by (auto simp: db_wf_def store_note_def notes_of_def split: option.splits)

lemma store_note_fields:
  "db_count (store_note db i n) = db_count db" "db_next_id (store_note db i n) = db_next_id db"
  "db_capacity (store_note db i n) = db_capacity db"
  by (simp_all add: store_note_def)

lemma cn_note_delete_result:
  assumes "db_wf db" and "cn_note_delete nid db = (r, db')"
  shows "db' = db
       \<or> (\<exists>i. i < length (live db) \<and> mset (live db') = mset (live db) - {#live db ! i#}
             \<and> unat (db_count db') + 1 = unat (db_count db)
             \<and> db_wf db' \<and> db_next_id db' = db_next_id db)"
proof (cases "nid \<noteq> 0 \<and> find_note nid (live db) \<noteq> None")
  case False
  then have "nid = 0 \<or> find_note nid (live db) = None"
    by simp
  then have "db' = db"
    using assms(2) by (auto simp: cn_note_delete_def split: if_splits)
  then show ?thesis ..
next
  case True
  then obtain i where i: "find_note nid (live db) = Some i" and nz: "nid \<noteq> 0"
    by auto
  from cn_note_delete_found[OF assms(1) nz i] assms(2) find_note_Some[OF i] show ?thesis
    by auto
qed

subsection \<open>The snapshot invariant is kept\<close>

lemma store_inv_add:
  assumes "store_inv db" and "cn_note_add a now t c g db = Inr (r, db')"
  shows "store_inv db'"
proof -
  from assms(1) have wf: "db_wf db"
    by (simp add: store_inv_def)
  from cn_note_add_result[OF wf assms(2)] show ?thesis
  proof
    assume "r = 0 \<and> db' = db"
    with assms(1) show ?thesis by simp
  next
    assume "\<exists>note. live db' = live db @ [note] \<and> note_id note = db_next_id db \<and> note_bounded note
             \<and> r = db_next_id db
             \<and> db_next_id db' = (if db_next_id db + 1 = 0 then 1 else db_next_id db + 1)
             \<and> db_count db' = db_count db + 1 \<and> db_count db < MAX_NOTES \<and> db_wf db'"
    then obtain nn where nn: "live db' = live db @ [nn]" "note_bounded nn"
      "db_next_id db' = (if db_next_id db + 1 = 0 then 1 else db_next_id db + 1)"
      "db_count db' = db_count db + 1" "db_count db < MAX_NOTES" "db_wf db'"
      by blast
    have "db_count db + 1 \<le> MAX_NOTES"
      using nn(5) by (simp add: inc_le)
    moreover have "db_next_id db' \<noteq> 0"
      using nn(3) by simp
    ultimately show ?thesis
      using assms(1) nn by (simp add: store_inv_def)
  qed
qed

lemma store_inv_edit:
  assumes "store_inv db" and "cn_note_edit now nid t c g db = (r, db')"
  shows "store_inv db'"
proof -
  from cn_note_edit_result[OF assms(2)] show ?thesis
  proof
    assume "db' = db"
    with assms(1) show ?thesis by simp
  next
    assume "\<exists>i n'. i < length (live db) \<and> db' = store_note db i n'
             \<and> note_id n' = note_id (live db ! i)
             \<and> (note_bounded (live db ! i) \<longrightarrow> note_bounded n')"
    then obtain i n' where e: "i < length (live db)" "db' = store_note db i n'"
      "note_bounded (live db ! i) \<longrightarrow> note_bounded n'"
      by blast
    have all: "list_all note_bounded (live db)"
      using assms(1) by (simp add: store_inv_def)
    then have "note_bounded n'"
      using e(1,3) by (simp add: list_all_length)
    with all have "list_all note_bounded ((live db)[i := n'])"
      by (auto simp: list_all_iff dest: set_update_subset_insert[THEN subsetD])
    then show ?thesis
      using assms(1) by (simp add: store_inv_def e(2) live_store_note db_wf_store_note store_note_fields)
  qed
qed

lemma store_inv_delete:
  assumes "store_inv db" and "cn_note_delete nid db = (r, db')"
  shows "store_inv db'"
proof -
  from assms(1) have wf: "db_wf db"
    by (simp add: store_inv_def)
  from cn_note_delete_result[OF wf assms(2)] show ?thesis
  proof
    assume "db' = db"
    with assms(1) show ?thesis by simp
  next
    assume "\<exists>i. i < length (live db) \<and> mset (live db') = mset (live db) - {#live db ! i#}
             \<and> unat (db_count db') + 1 = unat (db_count db)
             \<and> db_wf db' \<and> db_next_id db' = db_next_id db"
    then obtain i where d: "mset (live db') = mset (live db) - {#live db ! i#}"
      "unat (db_count db') + 1 = unat (db_count db)" "db_wf db'" "db_next_id db' = db_next_id db"
      by blast
    have "set (live db') \<subseteq> set (live db)"
      using d(1) by (metis in_diffD set_mset_mset subsetI)
    then have "list_all note_bounded (live db')"
      using assms(1) by (auto simp: store_inv_def list_all_iff)
    moreover have "db_count db' \<le> MAX_NOTES"
      using assms(1) d(2) by (simp add: store_inv_def word_le_nat_alt)
    ultimately show ?thesis
      using assms(1) d by (simp add: store_inv_def)
  qed
qed

lemma store_inv_apply_op:
  "store_inv db \<Longrightarrow> apply_op x db = Inr db' \<Longrightarrow> store_inv db'"
proof (cases x)
  case (Add a now t c g)
  assume "store_inv db" "apply_op x db = Inr db'"
  with Add show ?thesis
    by (auto split: sum.splits dest: store_inv_add)
next
  case (Edit now nid t c g)
  assume "store_inv db" "apply_op x db = Inr db'"
  with Edit store_inv_edit[of db now nid t c g] show ?thesis
    by (cases "cn_note_edit now nid t c g db") auto
next
  case (Delete nid)
  assume "store_inv db" "apply_op x db = Inr db'"
  with Delete store_inv_delete[of db nid] show ?thesis
    by (cases "cn_note_delete nid db") auto
qed

lemma store_inv_run:
  "store_inv db \<Longrightarrow> run ops db = Inr db' \<Longrightarrow> store_inv db'"
proof (induction ops arbitrary: db)
  case Nil
  then show ?case by simp
next
  case (Cons x xs)
  from Cons.prems(2) obtain db1 where s: "apply_op x db = Inr db1" "run xs db1 = Inr db'"
    by (auto split: sum.splits)
  from store_inv_apply_op[OF Cons.prems(1) s(1)] s(2) show ?case
    by (rule Cons.IH)
qed

subsection \<open>Example runs\<close>

lemma strip_examples:
  "cn_strip_whitespace ''git'' = ''git''" "cn_strip_whitespace ''status'' = ''status''"
  "cn_strip_whitespace ''vcs'' = ''vcs''" "cn_strip_whitespace ''ls'' = ''ls''"
  "cn_strip_whitespace ''list'' = ''list''" "cn_strip_whitespace [] = []"
  by (simp_all add: cn_strip_whitespace_eq isspace_def)

lemma ex_add1:
  "cn_note_add True 5 (Some ''git'') (Some ''status'') (Some ''vcs'') ex_empty_db
     = Inr (1, \<lparr>db_notes = Some [ex_git_note, zero_note], db_count = 1, db_capacity = 2,
                 db_next_id = 2\<rparr>)"
  by (simp add: cn_note_add_def ex_empty_db_def ensure_capacity_for_one_def
      MAX_TITLE_LEN_def MAX_CONTENT_LEN_def MAX_TAGS_LEN_def MAX_NOTES_def
      cn_safe_strncpy_def strip_examples Let_def notes_of_def ex_git_note_def)

lemma ex_add2:
  "cn_note_add True 6 (Some ''ls'') (Some ''list'') None
      \<lparr>db_notes = Some [ex_git_note, zero_note], db_count = 1, db_capacity = 2, db_next_id = 2\<rparr>
     = Inr (2, \<lparr>db_notes = Some [ex_git_note, ex_ls_note], db_count = 2, db_capacity = 2,
                 db_next_id = 3\<rparr>)"
  by (simp add: cn_note_add_def ensure_capacity_for_one_def
      MAX_TITLE_LEN_def MAX_CONTENT_LEN_def MAX_TAGS_LEN_def MAX_NOTES_def
      cn_safe_strncpy_def strip_examples Let_def notes_of_def ex_ls_note_def word_le_nat_alt)

lemma ex_del:
  "cn_note_delete 1 \<lparr>db_notes = Some [ex_git_note, ex_ls_note], db_count = 2, db_capacity = 2,
                      db_next_id = 3\<rparr>
     = (True, ex_after_ops)"
  by (simp add: cn_note_delete_def live_def notes_of_def ex_git_note_def Let_def ex_after_ops_def)

lemma ex_run: "run ex_ops ex_empty_db = Inr ex_after_ops"
  by (simp add: ex_ops_def ex_add1 ex_add2 ex_del)

lemma ex_wraps: "\<not> wraps ex_ops ex_empty_db"
  by (simp add: ex_ops_def ex_add1 ex_add2 ex_del)

lemma ex_add_fresh:
  "cn_note_add True 5 (Some ''git'') (Some ''status'') (Some ''vcs'') fresh_store
     = Inr (1, ex_one_added)"
  by (simp add: cn_note_add_def fresh_store_def ensure_capacity_for_one_def INITIAL_CAPACITY_def
      MAX_TITLE_LEN_def MAX_CONTENT_LEN_def MAX_TAGS_LEN_def MAX_NOTES_def
      cn_safe_strncpy_def strip_examples Let_def notes_of_def ex_git_note_def ex_one_added_def)


subsection \<open>Saving and loading\<close>

lemma sanitize_bounded: "note_bounded n \<Longrightarrow> sanitize_note n = n"
proof -
  assume b: "note_bounded n"
  have "take (MAX_TITLE_LEN - 1) (title n) = title n"
    "take (MAX_CONTENT_LEN - 1) (content n) = content n"
    "take (MAX_TAGS_LEN - 1) (tags n) = tags n"
    using b by (auto simp: note_bounded_def)
  then show ?thesis
    by (simp add: sanitize_note_def)
qed

lemma note_bounded_sanitize: "note_bounded (sanitize_note n)"
  by (simp add: sanitize_note_def note_bounded_def MAX_TITLE_LEN_def MAX_CONTENT_LEN_def
      MAX_TAGS_LEN_def min_def)

lemma store_inv_fresh: "store_inv fresh_store"
  by (simp add: store_inv_def live_fresh_store)
    (simp add: fresh_store_def db_wf_def MAX_NOTES_def)

lemma load_capacity:
  assumes "\<not> MAX_NOTES < (fc :: size_t)"
  shows "unat fc \<le> unat (if (if fc < INITIAL_CAPACITY then INITIAL_CAPACITY else fc) < fc * GROWTH_FACTOR
                              \<and> fc * GROWTH_FACTOR \<le> MAX_NOTES
                           then fc * GROWTH_FACTOR
                           else (if fc < INITIAL_CAPACITY then INITIAL_CAPACITY else fc))"
proof -
  have "unat fc \<le> 1000000"
    using assms by (simp add: MAX_NOTES_def word_less_nat_alt not_less)
  then have "unat (fc * GROWTH_FACTOR) = unat fc * 2"
    by (simp add: GROWTH_FACTOR_def unat_word_ariths)
  then show ?thesis
    by (auto simp: INITIAL_CAPACITY_def word_less_nat_alt)
qed

lemma store_inv_load:
  assumes "db_notes blank = None" and "cn_db_load init_ok calloc_ok file blank = Inr db"
  shows "store_inv db"
proof -
  have init: "\<And>d. cn_db_init init_ok blank = Inr d \<Longrightarrow> d = fresh_store"
    using assms(1) by (auto simp: cn_db_init_def fresh_store_def split: if_splits)
  show ?thesis
  proof (cases "\<exists>fc fn rs. file = Some (Snapshot fc fn rs) \<and> \<not> MAX_NOTES < fc \<and> fn \<noteq> 0
                  \<and> fc \<noteq> 0 \<and> min (unat fc) (length rs) = unat fc")
    case False
    then have "cn_db_init init_ok blank = Inr db
        \<or> (\<exists>fn d. fn \<noteq> 0 \<and> cn_db_init init_ok blank = Inr d \<and> db = d\<lparr>db_next_id := fn\<rparr>)"
      using assms(2)
      by (auto simp: cn_db_load_def Let_def split: option.splits snapshot.splits if_splits sum.splits)
    then show ?thesis
    proof
      assume "cn_db_init init_ok blank = Inr db"
      then show ?thesis
        using init store_inv_fresh by simp
    next
      assume "\<exists>fn d. fn \<noteq> 0 \<and> cn_db_init init_ok blank = Inr d \<and> db = d\<lparr>db_next_id := fn\<rparr>"
      then obtain fn where "fn \<noteq> 0" "db = fresh_store\<lparr>db_next_id := fn\<rparr>"
        using init by auto
      then show ?thesis
        by (simp add: store_inv_def live_def notes_of_def)
          (simp add: fresh_store_def db_wf_def MAX_NOTES_def)
    qed
  next
    case True
    then obtain fc fn rs where f: "file = Some (Snapshot fc fn rs)" "\<not> MAX_NOTES < fc" "fn \<noteq> 0"
      "fc \<noteq> 0" "min (unat fc) (length rs) = unat fc"
      by blast
    define cap where "cap = (if (if fc < INITIAL_CAPACITY then INITIAL_CAPACITY else fc) < fc * GROWTH_FACTOR
                              \<and> fc * GROWTH_FACTOR \<le> MAX_NOTES
                           then fc * GROWTH_FACTOR
                           else (if fc < INITIAL_CAPACITY then INITIAL_CAPACITY else fc))"
    have cap: "unat fc \<le> unat cap"
      unfolding cap_def by (rule load_capacity[OF f(2)])
    have db: "db = \<lparr>db_notes = Some (map sanitize_note (take (unat fc) rs)
                                    @ replicate (unat cap - unat fc) zero_note),
                     db_count = fc, db_capacity = cap, db_next_id = fn\<rparr>"
    proof -
      have co: "calloc_ok"
      proof (rule ccontr)
        assume "\<not> calloc_ok"
        with assms(2) f show False
          by (simp add: cn_db_load_def Let_def)
      qed
      have "cn_db_load init_ok calloc_ok file blank
              = Inr \<lparr>db_notes = Some (map sanitize_note (take (unat fc) rs)
                                    @ replicate (unat cap - unat fc) zero_note),
                     db_count = fc, db_capacity = cap, db_next_id = fn\<rparr>"
        using f co unfolding cap_def
        by (simp add: cn_db_load_def Let_def del: if_split cong: if_cong)
      with assms(2) show ?thesis
        by simp
    qed
    have len: "length (take (unat fc) rs) = unat fc"
      using f(5) by simp
    have l: "live db = map sanitize_note (take (unat fc) rs)"
      using len by (simp add: db live_def notes_of_def)
    have "db_wf db"
      using cap len by (simp add: db db_wf_def word_le_nat_alt)
    moreover have "list_all note_bounded (live db)"
      unfolding l by (simp add: list_all_iff note_bounded_sanitize)
    ultimately show ?thesis
      using f(2,3) by (simp add: store_inv_def) (simp add: db not_less)
  qed
qed

lemma round_trip_store_inv:
  assumes "store_inv db" and "db_notes blank = None"
  shows "\<exists>snap db'. cn_db_save None db = Inr snap
           \<and> cn_db_load True True (Some snap) blank = Inr db'
           \<and> db_count db' = db_count db \<and> db_next_id db' = db_next_id db
           \<and> live db' = live db"
proof -
  from assms(1) have wf: "db_wf db" and lim: "\<not> MAX_NOTES < db_count db"
    and nz: "db_next_id db \<noteq> 0" and b: "list_all note_bounded (live db)"
    by (simp_all add: store_inv_def not_less)
  let ?snap = "Snapshot (db_count db) (db_next_id db) (if 0 < db_count db then live db else [])"
  have save: "cn_db_save None db = Inr ?snap"
    by (simp add: cn_db_save_def)
  have "\<exists>db'. cn_db_load True True (Some ?snap) blank = Inr db'
           \<and> db_count db' = db_count db \<and> db_next_id db' = db_next_id db
           \<and> live db' = live db"
  proof (cases "db_count db = 0")
    case True
    then have "live db = []"
      by (simp add: live_def)
    with True lim nz assms(2) show ?thesis
      by (simp add: cn_db_load_def cn_db_init_unallocated live_def)
        (simp add: fresh_store_def)
  next
    case False
    then have pos: "0 < db_count db"
      by (simp add: word_greater_zero_iff)
    have len: "length (live db) = unat (db_count db)"
      by (rule db_wf_length_live[OF wf])
    have san: "map sanitize_note (live db) = live db"
      using b by (intro map_idI) (simp add: list_all_iff sanitize_bounded)
    from False pos lim nz len san show ?thesis
      by (simp add: cn_db_load_def Let_def live_def[of "\<lparr>db_notes = _, db_count = _, db_capacity = _, db_next_id = _\<rparr>"] notes_of_def)
  qed
  with save show ?thesis
    by blast
qed

text \<open>
  C1. Take the store that \<^verbatim>\<open>cn_db_load\<close> returns at process start (the empty store of
  \<^verbatim>\<open>cn_db_init\<close> when there is no file) and apply any sequence of add, edit and delete
  calls that does not end the process. Saving the result succeeds when no step of the
  output fails, and loading the saved file into a fresh process gives a store with the
  same count, the same next id and the same live notes, slot by slot, in every field.
\<close>

theorem save_load_round_trip:
  assumes "db_notes blank0 = None" and "cn_db_load init_ok calloc_ok file blank0 = Inr dbi"
    and "run ops dbi = Inr db" and "db_notes blank = None"
  shows "\<exists>snap db'. cn_db_save None db = Inr snap
           \<and> cn_db_load True True (Some snap) blank = Inr db'
           \<and> db_count db' = db_count db \<and> db_next_id db' = db_next_id db
           \<and> live db' = live db"
proof -
  have "store_inv dbi"
    using assms(1,2) by (rule store_inv_load)
  then have "store_inv db"
    using assms(3) by (rule store_inv_run)
  then show ?thesis
    using assms(4) by (rule round_trip_store_inv)
qed

theorem save_load_round_trip_witness:
  "db_notes ex_unallocated = None
   \<and> cn_db_load True True None ex_unallocated = Inr fresh_store
   \<and> run [Add True 5 (Some ''git'') (Some ''status'') (Some ''vcs'')] fresh_store = Inr ex_one_added
   \<and> (\<exists>snap db'. cn_db_save None ex_one_added = Inr snap
           \<and> cn_db_load True True (Some snap) ex_unallocated = Inr db'
           \<and> db_count db' = 1 \<and> db_next_id db' = 2 \<and> live db' = [ex_git_note])"
proof -
  have h1: "db_notes ex_unallocated = None"
    by (simp add: ex_unallocated_def)
  have h2: "cn_db_load True True None ex_unallocated = Inr fresh_store"
    by (simp add: cn_db_load_def cn_db_init_unallocated h1)
  have h3: "run [Add True 5 (Some ''git'') (Some ''status'') (Some ''vcs'')] fresh_store = Inr ex_one_added"
    by (simp add: ex_add_fresh)
  have l: "live ex_one_added = [ex_git_note]"
    by (simp add: live_def ex_one_added_def notes_of_def take_one_update_replicate)
  have c: "db_count ex_one_added = 1" "db_next_id ex_one_added = 2"
    by (simp_all add: ex_one_added_def)
  from save_load_round_trip[OF h1 h2 h3 h1] h1 h2 h3 show ?thesis
    by (simp add: l c)
qed

subsection \<open>Distinct ids\<close>

lemma word_succ_no_wrap: "(r :: u32) \<noteq> - 1 \<Longrightarrow> r + 1 \<noteq> 0 \<and> unat (r + 1) = Suc (unat r)"
proof -
  assume "r \<noteq> - 1"
  then have nz: "1 + r \<noteq> 0"
    by (metis add.commute add_eq_0_iff)
  from unatSuc[OF nz] nz show ?thesis
    by (simp add: add.commute)
qed

lemma ids_inv_add:
  assumes "ids_inv db" and "cn_note_add a now t c g db = Inr (r, db')" and "r \<noteq> - 1"
  shows "ids_inv db'"
proof -
  from assms(1) have wf: "db_wf db"
    by (simp add: ids_inv_def)
  from cn_note_add_result[OF wf assms(2)] show ?thesis
  proof
    assume "r = 0 \<and> db' = db"
    with assms(1) show ?thesis by simp
  next
    assume "\<exists>note. live db' = live db @ [note] \<and> note_id note = db_next_id db \<and> note_bounded note
             \<and> r = db_next_id db
             \<and> db_next_id db' = (if db_next_id db + 1 = 0 then 1 else db_next_id db + 1)
             \<and> db_count db' = db_count db + 1 \<and> db_count db < MAX_NOTES \<and> db_wf db'"
    then obtain nn where nn: "live db' = live db @ [nn]" "note_id nn = db_next_id db"
      "r = db_next_id db"
      "db_next_id db' = (if db_next_id db + 1 = 0 then 1 else db_next_id db + 1)" "db_wf db'"
      by blast
    from word_succ_no_wrap[OF assms(3)] nn(3,4)
    have nx: "unat (db_next_id db') = Suc (unat (db_next_id db))"
      by simp
    have below: "list_all (\<lambda>n. unat (note_id n) < unat (db_next_id db)) (live db)"
      using assms(1) by (simp add: ids_inv_def)
    then have "db_next_id db \<notin> note_id ` set (live db)"
      by (auto simp: list_all_iff)
    moreover have "list_all (\<lambda>n. unat (note_id n) < unat (db_next_id db')) (live db')"
      using below by (auto simp: nn(1,2) nx list_all_iff less_Suc_eq)
    ultimately show ?thesis
      using assms(1) nn by (simp add: ids_inv_def)
  qed
qed

lemma ids_inv_edit:
  assumes "ids_inv db" and "cn_note_edit now nid t c g db = (r, db')"
  shows "ids_inv db'"
proof -
  from cn_note_edit_result[OF assms(2)] show ?thesis
  proof
    assume "db' = db"
    with assms(1) show ?thesis by simp
  next
    assume "\<exists>i n'. i < length (live db) \<and> db' = store_note db i n'
             \<and> note_id n' = note_id (live db ! i)
             \<and> (note_bounded (live db ! i) \<longrightarrow> note_bounded n')"
    then obtain i n' where e: "i < length (live db)" "db' = store_note db i n'"
      "note_id n' = note_id (live db ! i)"
      by blast
    have ids: "map note_id ((live db)[i := n']) = map note_id (live db)"
      using e(1,3) by (simp add: map_update list_update_same_conv)
    have below: "list_all (\<lambda>n. unat (note_id n) < unat (db_next_id db)) (live db)"
      using assms(1) by (simp add: ids_inv_def)
    then have "list_all (\<lambda>x. unat x < unat (db_next_id db)) (map note_id (live db))"
      by (simp add: list_all_iff)
    then have "list_all (\<lambda>x. unat x < unat (db_next_id db)) (map note_id ((live db)[i := n']))"
      by (simp only: ids)
    then have "list_all (\<lambda>n. unat (note_id n) < unat (db_next_id db)) ((live db)[i := n'])"
      by (simp add: list_all_iff)
    then show ?thesis
      using assms(1) ids
      by (simp add: ids_inv_def e(2) live_store_note db_wf_store_note store_note_fields)
  qed
qed

lemma ids_inv_delete:
  assumes "ids_inv db" and "cn_note_delete nid db = (r, db')"
  shows "ids_inv db'"
proof -
  from assms(1) have wf: "db_wf db"
    by (simp add: ids_inv_def)
  from cn_note_delete_result[OF wf assms(2)] show ?thesis
  proof
    assume "db' = db"
    with assms(1) show ?thesis by simp
  next
    assume "\<exists>i. i < length (live db) \<and> mset (live db') = mset (live db) - {#live db ! i#}
             \<and> unat (db_count db') + 1 = unat (db_count db)
             \<and> db_wf db' \<and> db_next_id db' = db_next_id db"
    then obtain i where d: "i < length (live db)"
      "mset (live db') = mset (live db) - {#live db ! i#}"
      "db_wf db'" "db_next_id db' = db_next_id db"
      by blast
    have "mset (live db) = add_mset (live db ! i) (mset (live db'))"
      using d(1,2) by simp
    then have "mset (map note_id (live db)) = mset (map note_id (live db ! i # live db'))"
      by (metis mset.simps(2) mset_map)
    then have "distinct (map note_id (live db)) \<longleftrightarrow> distinct (map note_id (live db ! i # live db'))"
      by (rule mset_eq_imp_distinct_iff)
    then have dist: "distinct (map note_id (live db'))"
      using assms(1) by (simp add: ids_inv_def)
    have "set (live db') \<subseteq> set (live db)"
      using d(2) by (metis in_diffD set_mset_mset subsetI)
    then have "list_all (\<lambda>n. unat (note_id n) < unat (db_next_id db')) (live db')"
      using assms(1) by (auto simp: ids_inv_def list_all_iff d(4))
    with dist d(3) show ?thesis
      by (simp add: ids_inv_def)
  qed
qed

lemma ids_inv_apply_op:
  assumes "ids_inv db" and "apply_op x db = Inr db'" and "\<not> op_wraps x db"
  shows "ids_inv db'"
proof (cases x)
  case (Add a now t c g)
  with assms(2) obtain r where "cn_note_add a now t c g db = Inr (r, db')"
    by (auto split: sum.splits)
  moreover with Add assms(3) have "r \<noteq> - 1"
    by simp
  ultimately show ?thesis
    using assms(1) by (rule ids_inv_add[rotated])
next
  case (Edit now nid t c g)
  with assms(1,2) ids_inv_edit[of db now nid t c g] show ?thesis
    by (cases "cn_note_edit now nid t c g db") auto
next
  case (Delete nid)
  with assms(1,2) ids_inv_delete[of db nid] show ?thesis
    by (cases "cn_note_delete nid db") auto
qed

lemma ids_inv_run:
  "ids_inv db \<Longrightarrow> run ops db = Inr db' \<Longrightarrow> \<not> wraps ops db \<Longrightarrow> ids_inv db'"
proof (induction ops arbitrary: db)
  case Nil
  then show ?case by simp
next
  case (Cons x xs)
  from Cons.prems(2) obtain db1 where s: "apply_op x db = Inr db1" "run xs db1 = Inr db'"
    by (auto split: sum.splits)
  from Cons.prems(3) s(1) have w: "\<not> op_wraps x db" "\<not> wraps xs db1"
    by simp_all
  from ids_inv_apply_op[OF Cons.prems(1) s(1) w(1)] s(2) w(2) show ?case
    by (rule Cons.IH)
qed

lemma run_append:
  "run (xs @ ys) db = (case run xs db of Inl e \<Rightarrow> Inl e | Inr db1 \<Rightarrow> run ys db1)"
  by (induction xs arbitrary: db) (auto split: sum.splits)

lemma wraps_append:
  "wraps (xs @ ys) db
     = (wraps xs db \<or> (case run xs db of Inl e \<Rightarrow> False | Inr db1 \<Rightarrow> wraps ys db1))"
  by (induction xs arbitrary: db) (auto split: sum.splits)

text \<open>
  C5. Start from a well-formed store without live notes and take any sequence of calls of
  \<^verbatim>\<open>cn_note_add\<close> and \<^verbatim>\<open>cn_note_delete\<close> (and of \<^verbatim>\<open>cn_note_edit\<close>) that does not end the
  process and during which the id counter does not wrap. After every initial part
  \<open>before\<close> of the sequence the ids of the live notes are pairwise distinct.
\<close>

theorem ids_unique_without_wrap:
  assumes "db_wf db0" and "db_count db0 = 0"
    and "run (before @ after) db0 = Inr db_end" and "\<not> wraps (before @ after) db0"
  shows "\<exists>db. run before db0 = Inr db \<and> distinct (map note_id (live db))"
proof -
  from assms(3) obtain db where r: "run before db0 = Inr db"
    by (auto simp: run_append split: sum.splits)
  from assms(4) have w: "\<not> wraps before db0"
    by (simp add: wraps_append)
  have "live db0 = []"
    using assms(2) by (simp add: live_def)
  with assms(1) have "ids_inv db0"
    by (simp add: ids_inv_def)
  from ids_inv_run[OF this r w] have "distinct (map note_id (live db))"
    by (simp add: ids_inv_def)
  with r show ?thesis
    by blast
qed

theorem ids_unique_without_wrap_witness:
  "db_wf ex_empty_db \<and> db_count ex_empty_db = 0
   \<and> run (take 2 ex_ops @ drop 2 ex_ops) ex_empty_db = Inr ex_after_ops
   \<and> \<not> wraps (take 2 ex_ops @ drop 2 ex_ops) ex_empty_db
   \<and> (\<exists>db. run (take 2 ex_ops) ex_empty_db = Inr db \<and> distinct (map note_id (live db)))"
proof -
  have h1: "db_wf ex_empty_db"
    by (simp add: db_wf_def ex_empty_db_def)
  have h2: "db_count ex_empty_db = 0"
    by (simp add: ex_empty_db_def)
  have h3: "run (take 2 ex_ops @ drop 2 ex_ops) ex_empty_db = Inr ex_after_ops"
    using ex_run by simp
  have h4: "\<not> wraps (take 2 ex_ops @ drop 2 ex_ops) ex_empty_db"
    using ex_wraps by simp
  from ids_unique_without_wrap[OF h1 h2 h3 h4] h1 h2 h3 h4 show ?thesis
    by simp
qed

subsection \<open>The tag filter\<close>

lemma split_commas_unfold:
  "split_commas s = takeWhile (\<lambda>c. c \<noteq> CHR '','') s
      # (case dropWhile (\<lambda>c. c \<noteq> CHR '','') s of [] \<Rightarrow> [] | x # rest \<Rightarrow> split_commas rest)"
proof (induction s)
  case Nil
  show ?case by simp
next
  case (Cons c cs)
  show ?case
  proof (cases "c = CHR '',''")
    case True
    then show ?thesis by simp
  next
    case False
    have "split_commas (c # cs) = (case split_commas cs of [] \<Rightarrow> [[c]] | t # ts \<Rightarrow> (c # t) # ts)"
      using False by simp
    also have "\<dots> = (c # takeWhile (\<lambda>c. c \<noteq> CHR '','') cs)
      # (case dropWhile (\<lambda>c. c \<noteq> CHR '','') cs of [] \<Rightarrow> [] | x # rest \<Rightarrow> split_commas rest)"
      by (subst Cons.IH) (simp only: list.case)
    finally show ?thesis
      using False by simp
  qed
qed

lemma required_Nil: "required [] = {}"
  by (simp add: required_def spec_trim_def)

lemma required_skip_commas: "required (dropWhile (\<lambda>c. c = CHR '','') s) = required s"
  by (induction s) (auto simp: required_def spec_trim_def)

lemma required_token:
  "required s = ({spec_trim (takeWhile (\<lambda>c. c \<noteq> CHR '','') s)} - {[]})
                  \<union> required (drop 1 (dropWhile (\<lambda>c. c \<noteq> CHR '','') s))"
proof -
  define tok where "tok = takeWhile (\<lambda>c. c \<noteq> CHR '','') s"
  define tail where "tail = (case dropWhile (\<lambda>c. c \<noteq> CHR '','') s of [] \<Rightarrow> []
                             | x # rest \<Rightarrow> split_commas rest)"
  have sc: "split_commas s = tok # tail"
    unfolding tok_def tail_def by (rule split_commas_unfold)
  have r: "required s = ({spec_trim tok} - {[]}) \<union> set (filter (\<lambda>t. t \<noteq> []) (map spec_trim tail))"
    unfolding required_def sc by auto
  have "set (filter (\<lambda>t. t \<noteq> []) (map spec_trim tail))
          = required (drop 1 (dropWhile (\<lambda>c. c \<noteq> CHR '','') s))"
  proof (cases "dropWhile (\<lambda>c. c \<noteq> CHR '','') s")
    case Nil
    show ?thesis
      unfolding tail_def Nil by (simp add: required_Nil)
  next
    case (Cons x rest)
    show ?thesis
      unfolding tail_def Cons by (simp add: required_def)
  qed
  with r show ?thesis
    by (simp add: tok_def)
qed

lemma strstr_sublist: "strstr hay needle \<longleftrightarrow> sublist needle hay"
  by (induction hay) (simp_all add: sublist_Cons_right)

lemma spec_trim_strip: "cn_strip_whitespace s = spec_trim s"
  by (simp add: cn_strip_whitespace_def Let_def spec_trim_def dropWhile_eq_drop[symmetric])
    (simp add: dropWhile_eq_drop)

lemma strtok_r_None: "strtok_r s = None \<Longrightarrow> required s = {}"
proof -
  assume "strtok_r s = None"
  then have "dropWhile (\<lambda>c. c = CHR '','') s = []"
    by (simp add: strtok_r_def Let_def split: if_splits)
  with required_skip_commas[of s] show "required s = {}"
    by (simp add: required_Nil)
qed

lemma strtok_r_Some:
  assumes "strtok_r s = Some (token, rest)"
  shows "required s = ({spec_trim token} - {[]}) \<union> required rest"
proof -
  let ?start = "dropWhile (\<lambda>c. c = CHR '','') s"
  from assms have "token = takeWhile (\<lambda>c. c \<noteq> CHR '','') ?start"
    and "rest = drop 1 (dropWhile (\<lambda>c. c \<noteq> CHR '','') ?start)"
    by (auto simp: strtok_r_def Let_def split: if_splits)
  then have "required ?start = ({spec_trim token} - {[]}) \<union> required rest"
    using required_token[of ?start] by simp
  then show ?thesis
    by (simp only: required_skip_commas)
qed

lemma match_tokens_required:
  "match_tokens note_copy s \<longleftrightarrow> (\<forall>t \<in> required s. sublist t note_copy)"
proof (induction note_copy s rule: match_tokens.induct)
  case (1 note_copy s)
  show ?case
  proof (cases "strtok_r s")
    case None
    then show ?thesis
      by (subst match_tokens.simps) (simp add: strtok_r_None)
  next
    case (Some p)
    obtain token rest where p: "p = (token, rest)"
      by (cases p)
    note r = strtok_r_Some[OF Some[unfolded p]]
    show ?thesis
    proof (cases "cn_strip_whitespace token \<noteq> [] \<and> \<not> strstr note_copy (cn_strip_whitespace token)")
      case True
      then have "match_tokens note_copy s = False"
        using Some p by (subst match_tokens.simps) simp
      moreover have "spec_trim token \<in> required s" "\<not> sublist (spec_trim token) note_copy"
        using True by (simp_all add: r spec_trim_strip strstr_sublist)
      ultimately show ?thesis
        by blast
    next
      case False
      from "1.IH"[OF Some p[symmetric] False]
      have ih: "match_tokens note_copy rest \<longleftrightarrow> (\<forall>t \<in> required rest. sublist t note_copy)" .
      have "match_tokens note_copy s = match_tokens note_copy rest"
        using Some p False by (subst match_tokens.simps) auto
      moreover have "spec_trim token = [] \<or> sublist (spec_trim token) note_copy"
        using False by (simp add: spec_trim_strip strstr_sublist)
      ultimately show ?thesis
        unfolding ih r by blast
    qed
  qed
qed

text \<open>
  C7, amended. \<^verbatim>\<open>cn_note_match_tags\<close> (its two \<^verbatim>\<open>malloc\<close> calls succeeding) returns true when
  the query is NULL or empty. Otherwise it returns false when the tags of the note are NULL
  or empty, or when the tags or the query are 512 bytes or longer; and otherwise true
  exactly when every non-empty, trimmed, comma-separated sub-token of the lower-cased query
  occurs in the lower-cased tags of the note.
\<close>

theorem match_tags_amended:
  "cn_note_match_tags True note_tags search_tags =
     (case given search_tags of
        None \<Rightarrow> True
      | Some q \<Rightarrow>
          (case given note_tags of
             None \<Rightarrow> False
           | Some n \<Rightarrow> length n < MAX_TAGS_LEN \<and> length q < MAX_TAGS_LEN
                        \<and> spec_match_tags (Some n) (Some q)))"
proof (cases "given search_tags")
  case None
  then show ?thesis
    by (simp add: cn_note_match_tags_def)
next
  case (Some q)
  then have q: "given (Some q) = Some q"
    by (auto simp: given_def split: option.splits if_splits)
  show ?thesis
  proof (cases "given note_tags")
    case None
    with Some show ?thesis
      by (simp add: cn_note_match_tags_def)
  next
    case (Some n)
    have "spec_match_tags (Some n) (Some q) = match_tokens (map tolower n) (map tolower q)"
      by (simp add: spec_match_tags_def q spec_required_tokens_def match_tokens_required required_def)
    with Some \<open>given search_tags = Some q\<close> show ?thesis
      by (auto simp: cn_note_match_tags_def not_le)
  qed
qed


lemma tolower_examples:
  "map tolower ''cli, Git'' = ''cli, git''" "map tolower ''git,cli'' = ''git,cli''"
  "map tolower ''svn'' = ''svn''" "map tolower ''git'' = ''git''"
  by code_simp+

lemma required_examples:
  "spec_required_tokens ''cli, Git'' = [''cli'', ''git'']"
  "spec_required_tokens ''svn'' = [''svn'']"
  by code_simp+

theorem match_tags_amended_witness:
  "cn_note_match_tags True (Some ''git,cli'') (Some ''cli, Git'')
   \<and> \<not> cn_note_match_tags True (Some ''git'') (Some ''svn'')"
proof -
  have a: "spec_match_tags (Some ''git,cli'') (Some ''cli, Git'')"
    by code_simp
  have b: "\<not> spec_match_tags (Some ''git'') (Some ''svn'')"
    by code_simp
  from match_tags_amended[of "Some ''git,cli''" "Some ''cli, Git''"]
    match_tags_amended[of "Some ''git''" "Some ''svn''"] a b
  show ?thesis
    by (simp add: given_def MAX_TAGS_LEN_def)
qed

text \<open>
  C7, as stated, fails for a note without tags and the query \<open>","\<close>: the query has no
  non-empty sub-token, so the claim makes it match, and the code returns 0.
\<close>

theorem match_tags_counterexample:
  "spec_match_tags (Some []) (Some '','') \<and> \<not> cn_note_match_tags True (Some []) (Some '','')"
proof -
  have "tolower (CHR '','') = CHR '',''"
    by (simp add: tolower_def)
  then have "spec_required_tokens '','' = []"
    by (simp add: spec_required_tokens_def spec_trim_def)
  then show ?thesis
    by (simp add: spec_match_tags_def given_def cn_note_match_tags_def)
qed

end
